theory Spec2Isabelle
  imports Main "HOL-Library.AList"
begin

section \<open>The relay server of \<^verbatim>\<open>server.py\<close>\<close>

text \<open>
  The server keeps two dictionaries, \<^verbatim>\<open>clients\<close> and \<^verbatim>\<open>pending\<close>, two counters, a
  \<^verbatim>\<open>running\<close> flag and two locks of class \<^verbatim>\<open>threading.Lock\<close>. Each thread function is
  embedded as a function on one record of this shared state. What the threads do to the
  outside (sends, closes, console lines, lock operations) is appended to a trace, in the
  order the code performs it.

  A \<^verbatim>\<open>threading.Lock\<close> is not reentrant: \<^verbatim>\<open>with lock:\<close> waits while the lock is held, also
  when the holder is the calling thread itself. A thread function therefore returns
  \<open>Done\<close> with its value and the state it leaves, or \<open>Blocked\<close> with the state in which
  it cannot go on (it waits for a lock that is held, for an event that is not set, or
  in \<^verbatim>\<open>recv\<close> for data that have not come).
\<close>

subsection \<open>Data\<close>

type_synonym conn = nat
type_synonym addr = "string \<times> int"
type_synonym bytes = string

text \<open>
  \<^verbatim>\<open>bytes.decode(errors='ignore')\<close> is a function of the Python library, not of the
  repository. The embedding takes it as a parameter of every function that decodes, so
  each theorem holds for whatever the decoder returns. Text is a list of characters with
  code points below 256.
\<close>

type_synonym decoder = "bytes \<Rightarrow> string"

datatype server_mode = MESSAGING | VOICE

text \<open>What \<^verbatim>\<open>sendall\<close> is given: \<open>Utf8 t\<close> stands for \<^verbatim>\<open>t.encode()\<close>, \<open>Raw b\<close> for the bytes \<open>b\<close>.\<close>

datatype payload = Utf8 string | Raw bytes

datatype lock = ClientsLock | PendingLock

datatype event =
    Sent conn payload
  | SendFailed conn payload
  | Closed conn
  | Printed string
  | Acquired lock
  | Released lock
  | ListenerClosed

text \<open>What one \<^verbatim>\<open>conn.recv\<close> gives: data (empty when the peer closed), or an exception.\<close>

datatype recv = Data bytes | Timeout | ConnectionReset | OtherError

record user =
  user_id :: int
  user_name :: string
  user_addr :: addr

text \<open>
  An entry of \<^verbatim>\<open>pending\<close>. The \<^verbatim>\<open>threading.Event\<close> object is shared between the entry
  and the handshake thread that waits on it, so the events live in a store of their own
  (\<open>ev_set\<close> below) and the entry holds a reference. One event is made per pending id, and
  the reference is that id. \<open>decision\<close> is \<^verbatim>\<open>None\<close>, \<^verbatim>\<open>True\<close> or \<^verbatim>\<open>False\<close>.
\<close>

record request =
  req_conn :: conn
  req_name :: string
  req_addr :: addr
  req_event :: int
  decision :: "bool option"

record state =
  mode :: server_mode
  clients :: "(conn \<times> user) list"
  next_user_id :: int
  pending :: "(int \<times> request) list"
  next_pending_id :: int
  running :: bool
  clients_lock :: bool
  pending_lock :: bool
  ev_set :: "int \<Rightarrow> bool"
  closed :: "conn set"
  broken :: "conn set"
  trace :: "event list"

datatype 'a result = Done 'a state | Blocked state

fun state_of :: "'a result \<Rightarrow> state" where
  "state_of (Done x s) = s"
| "state_of (Blocked s) = s"

subsection \<open>Python text operations\<close>

text \<open>\<^verbatim>\<open>str.isspace\<close> on the code points below 256.\<close>

definition is_space :: "char \<Rightarrow> bool" where
  "is_space c = (of_char c \<in> {9, 10, 11, 12, 13, 28, 29, 30, 31, 32, 133, 160 :: nat})"

definition strip :: "string \<Rightarrow> string" where
  "strip s = rev (dropWhile is_space (rev (dropWhile is_space s)))"

text \<open>\<^verbatim>\<open>str.lower\<close> on the code points below 256.\<close>

definition lower_char :: "char \<Rightarrow> char" where
  "lower_char c =
     (let n = of_char c :: nat
      in if (65 \<le> n \<and> n \<le> 90) \<or> (192 \<le> n \<and> n \<le> 222 \<and> n \<noteq> 215)
         then char_of (n + 32) else c)"

definition lower :: "string \<Rightarrow> string" where
  "lower s = map lower_char s"

definition startswith :: "string \<Rightarrow> string \<Rightarrow> bool" where
  "startswith s p = (take (length p) s = p)"

fun join :: "string \<Rightarrow> string list \<Rightarrow> string" where
  "join sep [] = []"
| "join sep [x] = x"
| "join sep (x # y # ys) = x @ sep @ join sep (y # ys)"

fun digits :: "nat \<Rightarrow> string" where
  "digits n =
     (if n < 10 then [''0123456789'' ! n]
      else digits (n div 10) @ [''0123456789'' ! (n mod 10)])"

declare digits.simps [simp del]

text \<open>\<^verbatim>\<open>str(i)\<close>, as an f-string formats an \<^verbatim>\<open>int\<close>.\<close>

definition str_int :: "int \<Rightarrow> string" where
  "str_int i = (if i < 0 then CHR ''-'' # digits (nat (- i)) else digits (nat i))"

text \<open>
  An address tuple as an f-string formats it, for a host string that needs no escaping
  (a dotted address).
\<close>

definition str_addr :: "addr \<Rightarrow> string" where
  "str_addr a = ''('' @ [CHR 0x27] @ fst a @ [CHR 0x27] @ '', '' @ str_int (snd a) @ '')''"

definition str_mode :: "server_mode \<Rightarrow> string" where
  "str_mode m = (case m of MESSAGING \<Rightarrow> ''MESSAGING'' | VOICE \<Rightarrow> ''VOICE'')"

subsection \<open>Sockets, console and locks\<close>

definition emit :: "event \<Rightarrow> state \<Rightarrow> state" where
  "emit e s = s\<lparr>trace := trace s @ [e]\<rparr>"

text \<open>
  \<^verbatim>\<open>conn.sendall(data)\<close> raises when the server has closed the socket or the connection
  is broken; the first component says whether it returned normally.
\<close>

definition sendall :: "conn \<Rightarrow> payload \<Rightarrow> state \<Rightarrow> bool \<times> state" where
  "sendall c m s =
     (if c \<in> closed s \<or> c \<in> broken s then (False, emit (SendFailed c m) s)
      else (True, emit (Sent c m) s))"

definition close_conn :: "conn \<Rightarrow> state \<Rightarrow> state" where
  "close_conn c s = emit (Closed c) (s\<lparr>closed := insert c (closed s)\<rparr>)"

definition print :: "string \<Rightarrow> state \<Rightarrow> state" where
  "print line s = emit (Printed line) s"

definition acquire_clients :: "state \<Rightarrow> state" where
  "acquire_clients s = emit (Acquired ClientsLock) (s\<lparr>clients_lock := True\<rparr>)"

definition release_clients :: "state \<Rightarrow> state" where
  "release_clients s = emit (Released ClientsLock) (s\<lparr>clients_lock := False\<rparr>)"

definition acquire_pending :: "state \<Rightarrow> state" where
  "acquire_pending s = emit (Acquired PendingLock) (s\<lparr>pending_lock := True\<rparr>)"

definition release_pending :: "state \<Rightarrow> state" where
  "release_pending s = emit (Released PendingLock) (s\<lparr>pending_lock := False\<rparr>)"

subsection \<open>Broadcast and removal\<close>

definition left_note :: "user \<Rightarrow> string" where
  "left_note u =
     ''[Server]: '' @ user_name u @ '' (ID:'' @ str_int (user_id u) @ '') has left the session.''"

definition removed_line :: "user \<Rightarrow> string" where
  "removed_line u =
     ''[-] Removed: '' @ user_name u @ '' (ID:'' @ str_int (user_id u) @ '') ''
       @ str_addr (user_addr u)"

text \<open>
  \<^verbatim>\<open>broadcast_message\<close> and \<^verbatim>\<open>broadcast_audio\<close> have one body, but for the encoding of
  the text; \<open>broadcast\<close> is that body. It takes \<^verbatim>\<open>clients_lock\<close>, copies the keys and
  sends to each key of the copy but \<^verbatim>\<open>exclude_conn\<close>, still inside the \<^verbatim>\<open>with\<close> block; a
  send that raises calls \<^verbatim>\<open>_disconnect_conn\<close>. \<^verbatim>\<open>_disconnect_conn\<close> takes the same lock and,
  inside its \<^verbatim>\<open>with\<close> block, calls \<^verbatim>\<open>broadcast_message\<close>.
\<close>

function broadcast :: "payload \<Rightarrow> conn option \<Rightarrow> state \<Rightarrow> unit result"
  and send_loop :: "conn list \<Rightarrow> payload \<Rightarrow> conn option \<Rightarrow> state \<Rightarrow> unit result"
  and disconnect_conn :: "conn \<Rightarrow> state \<Rightarrow> unit result"
where
  "broadcast m ex s =
     (if clients_lock s then Blocked s
      else (case send_loop (map fst (clients s)) m ex (acquire_clients s) of
              Done _ s' \<Rightarrow> Done () (release_clients s')
            | Blocked s' \<Rightarrow> Blocked s'))"
| "send_loop [] m ex s = Done () s"
| "send_loop (c # cs) m ex s =
     (if ex = Some c then send_loop cs m ex s
      else (case sendall c m s of
              (True, s') \<Rightarrow> send_loop cs m ex s'
            | (False, s') \<Rightarrow>
                (case disconnect_conn c s' of
                   Done _ s'' \<Rightarrow> send_loop cs m ex s''
                 | Blocked s'' \<Rightarrow> Blocked s'')))"
| "disconnect_conn c s =
     (if clients_lock s then Blocked s
      else (let s1 = acquire_clients s
            in case map_of (clients s1) c of
                 None \<Rightarrow> Done () (release_clients s1)
               | Some u \<Rightarrow>
                   (case broadcast (Utf8 (left_note u)) None
                           (print (removed_line u)
                             (close_conn c (s1\<lparr>clients := AList.delete c (clients s1)\<rparr>))) of
                      Done _ s' \<Rightarrow> Done () (release_clients s')
                    | Blocked s' \<Rightarrow> Blocked s')))"
  by pat_completeness auto

text \<open>
  The recursion ends because the lock is not reentrant: a call made while
  \<^verbatim>\<open>clients_lock\<close> is held stops at its own \<^verbatim>\<open>with clients_lock:\<close>.
\<close>

lemma clients_lock_sendall:
  "(ok, s') = sendall c m s \<Longrightarrow> clients_lock s' = clients_lock s"
  by (auto simp: sendall_def emit_def split: if_splits)

lemma clients_lock_removed:
  "clients_lock (print l (close_conn c ((acquire_clients s)\<lparr>clients := cl\<rparr>)))"
  by (simp add: print_def close_conn_def acquire_clients_def emit_def)

termination broadcast
proof (relation "measures [
      (\<lambda>x. case x of Inl (m, ex, s) \<Rightarrow> (if clients_lock s then 0 else 1)
               | Inr (Inl (cs, m, ex, s)) \<Rightarrow> (if clients_lock s then 0 else 1)
               | Inr (Inr (c, s)) \<Rightarrow> (if clients_lock s then 0 else 1)),
      (\<lambda>x. case x of Inl _ \<Rightarrow> 2 | Inr (Inl _) \<Rightarrow> 1 | Inr (Inr _) \<Rightarrow> 0),
      (\<lambda>x. case x of Inr (Inl (cs, m, ex, s)) \<Rightarrow> length cs | _ \<Rightarrow> 0)]",
    goal_cases)
  case 1
  show ?case by simp
next
  case (2 m ex s)
  then show ?case by (simp add: acquire_clients_def emit_def)
next
  case (3 c cs m ex s)
  then show ?case by simp
next
  case (4 c cs m ex s x y)
  then show ?case by (simp add: clients_lock_sendall)
next
  case (5 c cs m ex s x y)
  then show ?case by (simp add: clients_lock_sendall)
next
  case (6 c cs m ex s x y u s'')
  have "clients_lock y = clients_lock s"
    using 6(2) by (rule clients_lock_sendall)
  moreover have "\<not> clients_lock y"
    using 6(4,5) by (auto simp: disconnect_conn.psimps)
  ultimately show ?case by simp
next
  case (7 c s s1 u)
  then show ?case by (simp add: clients_lock_removed)
qed

declare broadcast.simps [simp del] disconnect_conn.simps [simp del]

definition broadcast_message :: "string \<Rightarrow> conn option \<Rightarrow> state \<Rightarrow> unit result" where
  "broadcast_message text exclude_conn s = broadcast (Utf8 text) exclude_conn s"

definition broadcast_audio :: "bytes \<Rightarrow> conn option \<Rightarrow> state \<Rightarrow> unit result" where
  "broadcast_audio data exclude_conn s = broadcast (Raw data) exclude_conn s"

subsection \<open>The handshake: \<^verbatim>\<open>handle_new_connection\<close>\<close>

definition pending_line :: "int \<Rightarrow> string \<Rightarrow> addr \<Rightarrow> string" where
  "pending_line pid name a =
     ''[PENDING '' @ str_int pid @ ''] '' @ name @ '' from '' @ str_addr a
       @ ''. Use '' @ [CHR 0x27] @ ''accept '' @ str_int pid @ [CHR 0x27]
       @ '' or '' @ [CHR 0x27] @ ''reject '' @ str_int pid @ [CHR 0x27] @ ''.''"

definition rejected_line :: "string \<Rightarrow> addr \<Rightarrow> string" where
  "rejected_line name a = ''[REJECTED] '' @ name @ '' from '' @ str_addr a"

definition accepted_line :: "string \<Rightarrow> int \<Rightarrow> addr \<Rightarrow> nat \<Rightarrow> string" where
  "accepted_line name uid a n =
     ''[ACCEPTED] '' @ name @ '' -> ID:'' @ str_int uid @ '' from '' @ str_addr a
       @ ''. Total clients: '' @ str_int (int n)"

text \<open>
  The thread function up to \<^verbatim>\<open>ev.wait()\<close>. The argument \<open>r\<close> is what the first
  \<^verbatim>\<open>conn.recv(2048)\<close> gives under the timeout. \<open>Done None\<close>: the function returned.
  \<open>Done (Some (pid, name))\<close>: the entry \<open>pid\<close> is in \<^verbatim>\<open>pending\<close> and the thread waits on its
  event.
\<close>

definition handle_new_connection ::
  "decoder \<Rightarrow> conn \<Rightarrow> addr \<Rightarrow> recv \<Rightarrow> state \<Rightarrow> (int \<times> string) option result" where
  "handle_new_connection dec conn a r s =
     (case r of
        Data raw \<Rightarrow>
          (let sx = strip (dec raw)
           in if startswith sx ''NAME:''
              then (let name = strip (drop 5 sx)
                    in if pending_lock s then Blocked s
                       else (let s1 = acquire_pending s;
                                 pid = next_pending_id s1;
                                 s2 = s1\<lparr>next_pending_id := pid + 1,
                                         ev_set := (ev_set s1)(pid := False),
                                         pending := AList.update pid
                                           \<lparr>req_conn = conn, req_name = name, req_addr = a,
                                            req_event = pid, decision = None\<rparr> (pending s1)\<rparr>
                             in Done (Some (pid, name))
                                  (print (pending_line pid name a) (release_pending s2))))
              else Done None (close_conn conn (snd (sendall conn (Utf8 ''REJECT'') s))))
      | _ \<Rightarrow> Done None (close_conn conn s))"

text \<open>
  The thread function from \<^verbatim>\<open>ev.wait()\<close> on, for the thread that waits on the event of
  \<open>pid\<close>. \<open>Done (Some uid)\<close>: the relay thread was started for the client \<open>uid\<close>.
  \<open>Done None\<close>: the function returned without starting it.
\<close>

definition handle_new_connection_resume ::
  "int \<Rightarrow> conn \<Rightarrow> string \<Rightarrow> addr \<Rightarrow> state \<Rightarrow> int option result" where
  "handle_new_connection_resume pid conn name a s =
     (if \<not> ev_set s pid then Blocked s
      else if pending_lock s then Blocked s
      else (let s1 = acquire_pending s;
                info = map_of (pending s1) pid;
                s2 = release_pending (s1\<lparr>pending := AList.delete pid (pending s1)\<rparr>)
            in case info of
                 None \<Rightarrow> Done None (close_conn conn s2)
               | Some i \<Rightarrow>
                   if decision i \<noteq> Some True
                   then Done None (print (rejected_line name a)
                          (close_conn conn (snd (sendall conn (Utf8 ''REJECT'') s2))))
                   else if clients_lock s2 then Blocked s2
                   else (let s3 = acquire_clients s2;
                             uid = next_user_id s3;
                             s4 = release_clients (s3\<lparr>next_user_id := uid + 1,
                                    clients := AList.update conn
                                      \<lparr>user_id = uid, user_name = name, user_addr = a\<rparr>
                                      (clients s3)\<rparr>)
                         in case sendall conn (Utf8 (''MODE:'' @ str_mode (mode s4))) s4 of
                              (False, s5) \<Rightarrow>
                                (case disconnect_conn conn s5 of
                                   Done _ s6 \<Rightarrow> Done None s6
                                 | Blocked s6 \<Rightarrow> Blocked s6)
                            | (True, s5) \<Rightarrow>
                                Done (Some uid)
                                  (print (accepted_line name uid a (length (clients s5))) s5))))"

subsection \<open>The relay session: \<^verbatim>\<open>handle_accepted_client\<close>\<close>

datatype ctl = Continue | Break

definition users_msg :: "(conn \<times> user) list \<Rightarrow> string" where
  "users_msg cl =
     ''[USERS] '' @ join '','' (map (\<lambda>u. str_int (user_id u) @ ''|'' @ user_name u) (map snd cl))"

definition joined_call_note :: "string \<Rightarrow> int \<Rightarrow> string" where
  "joined_call_note name uid =
     ''[Server]: '' @ name @ '' (ID:'' @ str_int uid @ '') joined the call.''"

definition user_joined_note :: "string \<Rightarrow> int \<Rightarrow> string" where
  "user_joined_note name uid =
     ''[Server] User joined -> ID:'' @ str_int uid @ '', Name:'' @ name"

definition welcome_note :: "string \<Rightarrow> int \<Rightarrow> string" where
  "welcome_note name uid = ''Welcome '' @ name @ ''! Your ID is '' @ str_int uid"

text \<open>VOICE mode, before the loop.\<close>

definition voice_entry :: "conn \<Rightarrow> int \<Rightarrow> string \<Rightarrow> state \<Rightarrow> unit result" where
  "voice_entry conn uid name s =
     (if clients_lock s then Blocked s
      else (let s1 = acquire_clients s;
                msg = users_msg (clients s1);
                s2 = release_clients s1;
                s3 = snd (sendall conn (Utf8 msg) s2)
            in broadcast_message (joined_call_note name uid) (Some conn) s3))"

text \<open>VOICE mode, the body of the loop for one \<^verbatim>\<open>conn.recv(CHUNK)\<close>.\<close>

definition voice_chunk :: "decoder \<Rightarrow> conn \<Rightarrow> recv \<Rightarrow> state \<Rightarrow> ctl result" where
  "voice_chunk dec conn r s =
     (case r of
        Data data \<Rightarrow>
          if data = [] then Done Break s
          else if length data < 64 \<and> lower (strip (dec data)) = ''leave'' then Done Break s
          else (case broadcast_audio data (Some conn) s of
                  Done _ s' \<Rightarrow> Done Continue s'
                | Blocked s' \<Rightarrow> Blocked s')
      | _ \<Rightarrow> Done Break s)"

text \<open>MESSAGING mode, before the loop.\<close>

definition messaging_entry :: "conn \<Rightarrow> int \<Rightarrow> string \<Rightarrow> state \<Rightarrow> unit result" where
  "messaging_entry conn uid name s =
     (case broadcast_message (user_joined_note name uid) (Some conn) s of
        Done _ s1 \<Rightarrow> Done () (snd (sendall conn (Utf8 (welcome_note name uid)) s1))
      | Blocked s1 \<Rightarrow> Blocked s1)"

text \<open>MESSAGING mode, the body of the loop for one \<^verbatim>\<open>conn.recv(4096)\<close>.\<close>

definition messaging_chunk :: "decoder \<Rightarrow> conn \<Rightarrow> string \<Rightarrow> recv \<Rightarrow> state \<Rightarrow> ctl result" where
  "messaging_chunk dec conn name r s =
     (case r of
        Data data \<Rightarrow>
          if data = [] then Done Break s
          else (let message = strip (dec data)
                in if message = [] then Done Continue s
                   else if lower message = ''leave'' then Done Break s
                   else (let full_msg = name @ '': '' @ message
                         in case broadcast_message full_msg (Some conn) (print full_msg s) of
                              Done _ s' \<Rightarrow> Done Continue s'
                            | Blocked s' \<Rightarrow> Blocked s'))
      | _ \<Rightarrow> Done Break s)"

text \<open>
  \<^verbatim>\<open>while running:\<close> over the results of the successive receives. When they are used up and
  the loop has not ended, the thread waits in \<^verbatim>\<open>recv\<close>.
\<close>

fun relay_loop :: "(recv \<Rightarrow> state \<Rightarrow> ctl result) \<Rightarrow> recv list \<Rightarrow> state \<Rightarrow> unit result" where
  "relay_loop body [] s = (if running s then Blocked s else Done () s)"
| "relay_loop body (r # rs) s =
     (if \<not> running s then Done () s
      else (case body r s of
              Done Continue s' \<Rightarrow> relay_loop body rs s'
            | Done Break s' \<Rightarrow> Done () s'
            | Blocked s' \<Rightarrow> Blocked s'))"

definition handle_accepted_client ::
  "decoder \<Rightarrow> conn \<Rightarrow> addr \<Rightarrow> int \<Rightarrow> string \<Rightarrow> recv list \<Rightarrow> state \<Rightarrow> unit result" where
  "handle_accepted_client dec conn a uid name inputs s =
     (case (if mode s = VOICE
            then (case voice_entry conn uid name s of
                    Done _ s1 \<Rightarrow> relay_loop (voice_chunk dec conn) inputs s1
                  | Blocked s1 \<Rightarrow> Blocked s1)
            else (case messaging_entry conn uid name s of
                    Done _ s1 \<Rightarrow> relay_loop (messaging_chunk dec conn name) inputs s1
                  | Blocked s1 \<Rightarrow> Blocked s1)) of
        Done _ s2 \<Rightarrow> disconnect_conn conn s2
      | Blocked s2 \<Rightarrow> Blocked s2)"

subsection \<open>The operator: \<^verbatim>\<open>operator_cli\<close>\<close>

text \<open>
  One pass of the loop of \<^verbatim>\<open>operator_cli\<close>, for a line that names a command and, for
  \<^verbatim>\<open>accept\<close>, \<^verbatim>\<open>reject\<close> and \<^verbatim>\<open>kick\<close>, an argument that \<^verbatim>\<open>int\<close> has parsed. The branches that
  only print a usage line, \<^verbatim>\<open>invalid pid\<close> or \<^verbatim>\<open>Unknown command\<close> touch nothing else and are
  left out.
\<close>

datatype command =
    CmdPending
  | CmdAccept int
  | CmdReject int
  | CmdList
  | CmdKick int
  | CmdBroadcast string
  | CmdStop
  | CmdHelp

definition help_text :: string where
  "help_text =
     ''Commands:'' @ [CHR 0x0A]
     @ '' pending                     -> show pending connection requests'' @ [CHR 0x0A]
     @ '' accept <pid>                -> accept pending request'' @ [CHR 0x0A]
     @ '' reject <pid>                -> reject pending request'' @ [CHR 0x0A]
     @ '' list                        -> show connected clients'' @ [CHR 0x0A]
     @ '' broadcast <message>         -> server send message to all'' @ [CHR 0x0A]
     @ '' stop                        -> shutdown server'' @ [CHR 0x0A]
     @ '' help                        -> show this'' @ [CHR 0x0A]"

definition pending_entry_line :: "int \<Rightarrow> request \<Rightarrow> string" where
  "pending_entry_line pid r =
     ''PID:'' @ str_int pid @ '' - '' @ req_name r @ '' from '' @ str_addr (req_addr r)"

definition client_line :: "user \<Rightarrow> string" where
  "client_line u =
     ''ID:'' @ str_int (user_id u) @ '' Name:'' @ user_name u @ '' IP:'' @ fst (user_addr u)
       @ '' Port:'' @ str_int (snd (user_addr u))"

definition cmd_pending :: "state \<Rightarrow> unit result" where
  "cmd_pending s =
     (if pending_lock s then Blocked s
      else (let s1 = acquire_pending s
            in Done () (release_pending
                 (if pending s1 = [] then print ''No pending requests.'' s1
                  else fold (\<lambda>(pid, r). print (pending_entry_line pid r)) (pending s1) s1))))"

text \<open>\<^verbatim>\<open>accept <pid>\<close> and \<^verbatim>\<open>reject <pid>\<close>: \<open>d\<close> is the decision written, \<open>word\<close> the line's verb.\<close>

definition resolve :: "bool \<Rightarrow> string \<Rightarrow> int \<Rightarrow> state \<Rightarrow> unit result" where
  "resolve d word pid s =
     (if pending_lock s then Blocked s
      else (let s1 = acquire_pending s
            in case map_of (pending s1) pid of
                 None \<Rightarrow> Done () (release_pending (print ''No such pending pid'' s1))
               | Some r \<Rightarrow>
                   Done () (release_pending (print (word @ '' pending '' @ str_int pid)
                     (s1\<lparr>pending := AList.update pid (r\<lparr>decision := Some d\<rparr>) (pending s1),
                         ev_set := (ev_set s1)(req_event r := True)\<rparr>)))))"

definition cmd_accept :: "int \<Rightarrow> state \<Rightarrow> unit result" where
  "cmd_accept pid s = resolve True ''Accepted'' pid s"

definition cmd_reject :: "int \<Rightarrow> state \<Rightarrow> unit result" where
  "cmd_reject pid s = resolve False ''Rejected'' pid s"

definition cmd_list :: "state \<Rightarrow> unit result" where
  "cmd_list s =
     (if clients_lock s then Blocked s
      else (let s1 = acquire_clients s
            in Done () (release_clients
                 (if clients s1 = [] then print ''No connected clients.'' s1
                  else fold (\<lambda>(c, u). print (client_line u)) (clients s1) s1))))"

definition cmd_kick :: "int \<Rightarrow> state \<Rightarrow> unit result" where
  "cmd_kick uid s =
     (if clients_lock s then Blocked s
      else (let s1 = acquire_clients s
            in case find (\<lambda>(c, u). user_id u = uid) (clients s1) of
                 None \<Rightarrow> Done () (print ''No such user id'' (release_clients s1))
               | Some (c, u) \<Rightarrow>
                   (case disconnect_conn c
                           (snd (sendall c (Utf8 ''[Server]: You were kicked by admin.'') s1)) of
                      Done _ s2 \<Rightarrow>
                        Done () (print (''Kicked user '' @ str_int uid) (release_clients s2))
                    | Blocked s2 \<Rightarrow> Blocked s2)))"

definition cmd_broadcast :: "string \<Rightarrow> state \<Rightarrow> unit result" where
  "cmd_broadcast arg s =
     (case broadcast_message (''[Server]: '' @ arg) None s of
        Done _ s1 \<Rightarrow> Done () (print ''Broadcast sent.'' s1)
      | Blocked s1 \<Rightarrow> Blocked s1)"

definition reject_on_stop :: "request \<Rightarrow> state \<Rightarrow> state" where
  "reject_on_stop r s = close_conn (req_conn r) (snd (sendall (req_conn r) (Utf8 ''REJECT'') s))"

definition close_on_stop :: "conn \<Rightarrow> state \<Rightarrow> state" where
  "close_on_stop c s =
     close_conn c (snd (sendall c (Utf8 ''[Server]: Server shutting down.'') s))"

definition cmd_stop :: "state \<Rightarrow> unit result" where
  "cmd_stop s =
     (let s0 = (print ''Stopping server...'' s)\<lparr>running := False\<rparr>
      in if pending_lock s0 then Blocked s0
         else (let s1 = fold reject_on_stop (map snd (pending s0)) (acquire_pending s0);
                   s2 = release_pending (s1\<lparr>pending := []\<rparr>)
               in if clients_lock s2 then Blocked s2
                  else (let s3 = fold close_on_stop (map fst (clients s2)) (acquire_clients s2);
                            s4 = release_clients (s3\<lparr>clients := []\<rparr>)
                        in Done () (emit ListenerClosed s4))))"

definition operator_command :: "command \<Rightarrow> state \<Rightarrow> unit result" where
  "operator_command cmd s =
     (case cmd of
        CmdPending \<Rightarrow> cmd_pending s
      | CmdAccept pid \<Rightarrow> cmd_accept pid s
      | CmdReject pid \<Rightarrow> cmd_reject pid s
      | CmdList \<Rightarrow> cmd_list s
      | CmdKick uid \<Rightarrow> cmd_kick uid s
      | CmdBroadcast arg \<Rightarrow> cmd_broadcast arg s
      | CmdStop \<Rightarrow> cmd_stop s
      | CmdHelp \<Rightarrow> Done () (print help_text s))"

subsection \<open>A run of the process\<close>

text \<open>
  The threads interleave at the granularity of the functions above. An action is one of
  them, run by some thread from the shared state it finds, with the thread's own values
  (its socket, the id it holds) as arguments; \<open>PeerLost\<close> is the network breaking a
  connection. A thread that ends \<open>Blocked\<close> leaves the state as it is at that point, a
  lock it holds included.
\<close>

datatype action =
    NewConnection conn addr recv
  | Resume int conn string addr
  | SessionEnter conn int string
  | SessionRecv conn string recv
  | SessionExit conn
  | Operator command
  | PeerLost conn

definition step :: "decoder \<Rightarrow> action \<Rightarrow> state \<Rightarrow> state" where
  "step dec act s =
     (case act of
        NewConnection c a r \<Rightarrow> state_of (handle_new_connection dec c a r s)
      | Resume pid c name a \<Rightarrow> state_of (handle_new_connection_resume pid c name a s)
      | SessionEnter c uid name \<Rightarrow>
          (if mode s = VOICE then state_of (voice_entry c uid name s)
           else state_of (messaging_entry c uid name s))
      | SessionRecv c name r \<Rightarrow>
          (if \<not> running s then s
           else if mode s = VOICE then state_of (voice_chunk dec c r s)
           else state_of (messaging_chunk dec c name r s))
      | SessionExit c \<Rightarrow> state_of (disconnect_conn c s)
      | Operator cmd \<Rightarrow> state_of (operator_command cmd s)
      | PeerLost c \<Rightarrow> s\<lparr>broken := insert c (broken s)\<rparr>)"

fun run :: "decoder \<Rightarrow> action list \<Rightarrow> state \<Rightarrow> state" where
  "run dec [] s = s"
| "run dec (act # acts) s = run dec acts (step dec act s)"

text \<open>The globals as the module sets them, with the mode chosen in \<^verbatim>\<open>main\<close>.\<close>

definition initial :: "server_mode \<Rightarrow> state" where
  "initial m =
     \<lparr>mode = m, clients = [], next_user_id = 1, pending = [], next_pending_id = 1,
      running = True, clients_lock = False, pending_lock = False, ev_set = (\<lambda>_. False),
      closed = {}, broken = {}, trace = []\<rparr>"

text \<open>A decoder for the examples: on ASCII bytes it is \<^verbatim>\<open>decode(errors='ignore')\<close>.\<close>

definition ascii_decode :: decoder where
  "ascii_decode b = filter (\<lambda>c. of_char c < (128 :: nat)) b"

section \<open>Properties\<close>

subsection \<open>Shared notions and lemmas\<close>

text \<open>The event that \<^verbatim>\<open>sendall\<close> adds to the trace when it is called in state \<open>s\<close>.\<close>

definition send_event :: "conn \<Rightarrow> payload \<Rightarrow> state \<Rightarrow> event" where
  "send_event c m s = (if c \<in> closed s \<or> c \<in> broken s then SendFailed c m else Sent c m)"

lemmas prims = emit_def print_def sendall_def close_conn_def acquire_clients_def
  release_clients_def acquire_pending_def release_pending_def send_event_def

lemma unlock_pending_same:
  "\<not> pending_lock s \<Longrightarrow> s\<lparr>pending_lock := False, trace := t\<rparr> = s\<lparr>trace := t\<rparr>"
  by (cases s) simp

subsection \<open>The handshake\<close>

text \<open>
  The first receive is malformed when it raises (timeout, reset, any other error) or when
  its payload, decoded and trimmed, does not start with \<^verbatim>\<open>NAME:\<close>.
\<close>

definition malformed :: "decoder \<Rightarrow> recv \<Rightarrow> bool" where
  "malformed dec r =
     (case r of Data raw \<Rightarrow> \<not> startswith (strip (dec raw)) ''NAME:'' | _ \<Rightarrow> True)"

text \<open>
  C3, as the code has it. After a malformed first receive the handshake returns, the
  socket is closed and \<^verbatim>\<open>pending\<close> and its counter are untouched. When the receive gave a
  payload, \<^verbatim>\<open>REJECT\<close> is sent before the close; when the receive raised, the code goes to
  its \<^verbatim>\<open>except\<close> branch, which closes the socket and sends nothing.
\<close>

theorem malformed_handshake:
  assumes "malformed dec r"
  shows "\<exists>s'. handle_new_connection dec c a r s = Done None s'
           \<and> pending s' = pending s \<and> next_pending_id s' = next_pending_id s
           \<and> c \<in> closed s'
           \<and> trace s' = trace s @
               (case r of Data raw \<Rightarrow> [send_event c (Utf8 ''REJECT'') s, Closed c]
                | _ \<Rightarrow> [Closed c])"
  using assms
  by (cases r) (simp_all add: malformed_def handle_new_connection_def prims)

theorem malformed_handshake_witness:
  "malformed ascii_decode (Data ''hello'')
   \<and> (\<exists>s'. handle_new_connection ascii_decode 7 (''10.0.0.5'', 40000) (Data ''hello'')
              (initial MESSAGING) = Done None s'
         \<and> pending s' = [] \<and> trace s' = [Sent 7 (Utf8 ''REJECT''), Closed 7])"
proof -
  have m: "malformed ascii_decode (Data ''hello'')"
    by (simp add: malformed_def ascii_decode_def strip_def is_space_def startswith_def)
  show ?thesis
    using m malformed_handshake [OF m, of 7 "(''10.0.0.5'', 40000)" "initial MESSAGING"]
    by (auto simp: initial_def send_event_def)
qed

text \<open>
  C3 as stated fails: when the first receive times out, the socket is closed and no
  \<^verbatim>\<open>REJECT\<close> is sent.
\<close>

theorem handshake_timeout_counterexample:
  "handle_new_connection ascii_decode 7 (''10.0.0.5'', 40000) Timeout (initial MESSAGING)
     = Done None (close_conn 7 (initial MESSAGING))
   \<and> trace (close_conn 7 (initial MESSAGING)) = [Closed 7]
   \<and> Sent 7 (Utf8 ''REJECT'') \<notin> set (trace (close_conn 7 (initial MESSAGING)))"
  by (simp add: handle_new_connection_def initial_def prims)

lemma str_int_1: "str_int 1 = ''1''"
  by (simp add: str_int_def digits.simps)

lemmas run_simps = step_def operator_command_def handle_new_connection_def
  handle_new_connection_resume_def cmd_accept_def cmd_reject_def resolve_def cmd_stop_def
  reject_on_stop_def close_on_stop_def initial_def ascii_decode_def strip_def is_space_def
  startswith_def Let_def

text \<open>
  The examples: a peer on socket 7 sends \<^verbatim>\<open>NAME:bob\<close> to a fresh server and waits as
  pending request 1.
\<close>

definition bob :: addr where
  "bob = (''10.0.0.5'', 40000)"

definition bob_pending :: state where
  "bob_pending = run ascii_decode [NewConnection 7 bob (Data ''NAME:bob'')] (initial MESSAGING)"

lemma bob_pending_eq:
  "bob_pending = (initial MESSAGING)\<lparr>next_pending_id := 2,
      pending := [(1, \<lparr>req_conn = 7, req_name = ''bob'', req_addr = bob, req_event = 1,
                       decision = None\<rparr>)],
      trace := [Acquired PendingLock, Released PendingLock,
                Printed (pending_line 1 ''bob'' bob)]\<rparr>"
  by (simp add: bob_pending_def run_simps prims fun_upd_idem)

text \<open>How \<^verbatim>\<open>strip\<close> acts on a text that starts with \<^verbatim>\<open>NAME:\<close>.\<close>

lemma rstrip_keeps:
  assumes "p \<noteq> []" and "\<not> P (last p)"
  shows "rev (dropWhile P (rev (p @ r))) = p @ rev (dropWhile P (rev r))"
proof -
  from assms obtain q x where p: "p = q @ [x]" and x: "\<not> P x"
    by (cases p rule: rev_cases) auto
  show ?thesis
    using x by (simp add: p dropWhile_append)
qed

lemma lstrip_rstrip:
  "dropWhile P (rev (dropWhile P (rev r))) = rev (dropWhile P (rev (dropWhile P r)))"
proof (induction r)
  case Nil
  show ?case by simp
next
  case (Cons x xs)
  show ?case
  proof (cases "P x")
    case True
    with Cons show ?thesis
      by (auto simp: dropWhile_append dropWhile_eq_Nil_conv dest: set_dropWhileD)
  next
    case False
    then show ?thesis by (auto simp: dropWhile_append dropWhile_eq_Nil_conv)
  qed
qed

lemma strip_rstrip: "strip (rev (dropWhile is_space (rev r))) = strip r"
  by (simp add: strip_def lstrip_rstrip)

lemma strip_name_prefix:
  "strip (''NAME:'' @ rest) = ''NAME:'' @ rev (dropWhile is_space (rev rest))"
proof -
  have "dropWhile is_space (''NAME:'' @ rest) = ''NAME:'' @ rest"
    by (simp add: is_space_def)
  moreover have "rev (dropWhile is_space (rev (''NAME:'' @ rest)))
      = ''NAME:'' @ rev (dropWhile is_space (rev rest))"
    by (rule rstrip_keeps) (simp_all add: is_space_def)
  ultimately show ?thesis by (simp only: strip_def)
qed

text \<open>
  C10. A first payload whose decoded text starts with \<^verbatim>\<open>NAME:\<close> is a valid handshake
  whatever follows: the request is stored under the next pending id with the rest of the
  text, trimmed, as its name, and the thread goes on to wait. Nothing checks the name; when
  the rest is empty or white space, the name stored is the empty string (the witness).
\<close>

theorem empty_name_accepted:
  assumes "dec raw = ''NAME:'' @ rest" and "\<not> pending_lock s"
  shows "\<exists>s'. handle_new_connection dec c a (Data raw) s
             = Done (Some (next_pending_id s, strip rest)) s'
           \<and> map_of (pending s') (next_pending_id s)
             = Some \<lparr>req_conn = c, req_name = strip rest, req_addr = a,
                     req_event = next_pending_id s, decision = None\<rparr>
           \<and> next_pending_id s' = next_pending_id s + 1
           \<and> trace s' = trace s @ [Acquired PendingLock, Released PendingLock,
                Printed (pending_line (next_pending_id s) (strip rest) a)]"
proof -
  have sx: "strip (dec raw) = ''NAME:'' @ rev (dropWhile is_space (rev rest))"
    by (simp only: assms(1) strip_name_prefix)
  have pre: "startswith (strip (dec raw)) ''NAME:''"
    by (simp add: sx startswith_def)
  have name: "strip (drop 5 (strip (dec raw))) = strip rest"
    by (simp add: sx strip_rstrip)
  show ?thesis
    using assms(2) by (simp add: handle_new_connection_def pre name prims Let_def update_conv')
qed

theorem empty_name_accepted_witness:
  "ascii_decode ''NAME:   '' = ''NAME:'' @ ''   '' \<and> \<not> pending_lock (initial VOICE)
   \<and> strip ''   '' = []
   \<and> (\<exists>s'. handle_new_connection ascii_decode 7 bob (Data ''NAME:   '') (initial VOICE)
              = Done (Some (1, [])) s'
         \<and> map_of (pending s') 1
              = Some \<lparr>req_conn = 7, req_name = [], req_addr = bob, req_event = 1,
                      decision = None\<rparr>)"
proof -
  have a: "ascii_decode ''NAME:   '' = ''NAME:'' @ ''   ''" by (simp add: ascii_decode_def)
  have b: "\<not> pending_lock (initial VOICE)" by (simp add: initial_def)
  have c: "strip ''   '' = []" by (simp add: strip_def is_space_def)
  show ?thesis
    using a b c
      empty_name_accepted [of ascii_decode "''NAME:   ''" "''   ''" "initial VOICE" 7 bob]
    by (auto simp: initial_def)
qed

text \<open>
  C5, as the code has it. The handshake thread goes on when its event is set. When the
  entry it pops has a decision other than \<^verbatim>\<open>True\<close>, it sends \<^verbatim>\<open>REJECT\<close>, closes the socket and
  returns. When \<^verbatim>\<open>pending.pop\<close> finds no entry, it closes the socket and returns, and sends
  nothing. In both cases \<^verbatim>\<open>clients\<close> and its counter are untouched.
\<close>

theorem resume_not_accepted:
  assumes "ev_set s pid" and "\<not> pending_lock s"
    and "case map_of (pending s) pid of None \<Rightarrow> True | Some i \<Rightarrow> decision i \<noteq> Some True"
  shows "\<exists>s'. handle_new_connection_resume pid c name a s = Done None s'
           \<and> clients s' = clients s \<and> next_user_id s' = next_user_id s
           \<and> pending s' = AList.delete pid (pending s)
           \<and> c \<in> closed s'
           \<and> trace s' = trace s @ [Acquired PendingLock, Released PendingLock] @
               (case map_of (pending s) pid of
                  None \<Rightarrow> [Closed c]
                | Some i \<Rightarrow> [send_event c (Utf8 ''REJECT'') s, Closed c,
                             Printed (rejected_line name a)])"
  using assms
  by (cases "map_of (pending s) pid")
     (simp_all add: handle_new_connection_resume_def prims Let_def)

theorem resume_not_accepted_witness:
  "(let s = state_of (cmd_reject 1 bob_pending)
    in ev_set s 1 \<and> \<not> pending_lock s
       \<and> (\<exists>s'. handle_new_connection_resume 1 7 ''bob'' bob s = Done None s'
             \<and> clients s' = [] \<and> pending s' = []
             \<and> trace s' = trace s @ [Acquired PendingLock, Released PendingLock,
                  Sent 7 (Utf8 ''REJECT''), Closed 7, Printed (rejected_line ''bob'' bob)]))"
proof -
  let ?s = "state_of (cmd_reject 1 bob_pending)"
  have a: "ev_set ?s 1" by (simp add: bob_pending_eq run_simps prims)
  have b: "\<not> pending_lock ?s" by (simp add: bob_pending_eq run_simps prims)
  have c: "case map_of (pending ?s) 1 of None \<Rightarrow> True | Some i \<Rightarrow> decision i \<noteq> Some True"
    by (simp add: bob_pending_eq run_simps prims)
  show ?thesis
    using a b resume_not_accepted [OF a b c, of 7 "''bob''" bob]
    by (auto simp: bob_pending_eq run_simps prims)
qed

text \<open>
  C5 as stated fails for a missing entry. The operator accepts request 1 and stops the
  server before the handshake thread has run: \<^verbatim>\<open>stop\<close> empties \<^verbatim>\<open>pending\<close>, the thread finds
  its event set and no entry, and all it does to the socket is close it.
\<close>

theorem resume_missing_entry_counterexample:
  "(let s = state_of (cmd_stop (state_of (cmd_accept 1 bob_pending)))
    in ev_set s 1 \<and> map_of (pending s) 1 = None
       \<and> trace (state_of (handle_new_connection_resume 1 7 ''bob'' bob s))
           = trace s @ [Acquired PendingLock, Released PendingLock, Closed 7])"
  by (simp add: bob_pending_eq run_simps prims)

subsection \<open>The operator's decisions\<close>

text \<open>
  C8, as the code has it. \<^verbatim>\<open>accept\<close> and \<^verbatim>\<open>reject\<close> test \<^verbatim>\<open>pid not in pending\<close>. For a pid that
  is not a key of \<^verbatim>\<open>pending\<close> (never given, or popped by its handshake thread) the command
  prints \<^verbatim>\<open>No such pending pid\<close> and returns; but for the trace, the state is the one it
  found.
\<close>

theorem resolve_absent_pid:
  assumes "map_of (pending s) pid = None" and "\<not> pending_lock s"
  shows "cmd_accept pid s = Done () (s\<lparr>trace := trace s @
            [Acquired PendingLock, Printed ''No such pending pid'', Released PendingLock]\<rparr>)
       \<and> cmd_reject pid s = Done () (s\<lparr>trace := trace s @
            [Acquired PendingLock, Printed ''No such pending pid'', Released PendingLock]\<rparr>)"
  using assms
  by (simp add: cmd_accept_def cmd_reject_def resolve_def prims unlock_pending_same)

theorem resolve_absent_pid_witness:
  "map_of (pending (initial MESSAGING)) 5 = None \<and> \<not> pending_lock (initial MESSAGING)
   \<and> cmd_accept 5 (initial MESSAGING) = Done () ((initial MESSAGING)\<lparr>trace :=
        [Acquired PendingLock, Printed ''No such pending pid'', Released PendingLock]\<rparr>)
   \<and> cmd_reject 5 (initial MESSAGING) = Done () ((initial MESSAGING)\<lparr>trace :=
        [Acquired PendingLock, Printed ''No such pending pid'', Released PendingLock]\<rparr>)"
proof -
  have a: "map_of (pending (initial MESSAGING)) 5 = None" by (simp add: initial_def)
  have b: "\<not> pending_lock (initial MESSAGING)" by (simp add: initial_def)
  show ?thesis
    using a b resolve_absent_pid [OF a b] by (simp add: initial_def)
qed

text \<open>
  C8 as stated fails for a pid that is resolved and not yet popped: the entry stays in
  \<^verbatim>\<open>pending\<close> until its handshake thread runs, and a second command writes its decision
  again. Here \<^verbatim>\<open>accept 1\<close> is followed by \<^verbatim>\<open>reject 1\<close>.
\<close>

theorem resolved_pid_counterexample:
  "map (\<lambda>(pid, r). (pid, decision r))
     (pending (run ascii_decode
        [NewConnection 7 (''10.0.0.5'', 40000) (Data ''NAME:bob''), Operator (CmdAccept 1)]
        (initial MESSAGING))) = [(1, Some True)]
   \<and> map (\<lambda>(pid, r). (pid, decision r))
     (pending (run ascii_decode
        [NewConnection 7 (''10.0.0.5'', 40000) (Data ''NAME:bob''), Operator (CmdAccept 1),
         Operator (CmdReject 1)]
        (initial MESSAGING))) = [(1, Some False)]"
  by (simp add: run_simps prims)

subsection \<open>Shutdown\<close>

text \<open>A trace shows a rejection on socket \<open>c\<close>: \<^verbatim>\<open>REJECT\<close> was given to \<^verbatim>\<open>sendall\<close> and \<open>c\<close> was closed.\<close>

definition rejected_on :: "conn \<Rightarrow> event list \<Rightarrow> bool" where
  "rejected_on c t =
     (Closed c \<in> set t
      \<and> (Sent c (Utf8 ''REJECT'') \<in> set t \<or> SendFailed c (Utf8 ''REJECT'') \<in> set t))"

lemma reject_on_stop_eq:
  "reject_on_stop r s = s\<lparr>closed := insert (req_conn r) (closed s),
     trace := trace s @ [send_event (req_conn r) (Utf8 ''REJECT'') s, Closed (req_conn r)]\<rparr>"
  by (simp add: reject_on_stop_def prims)

lemma close_on_stop_eq:
  "close_on_stop c s = s\<lparr>closed := insert c (closed s),
     trace := trace s @ [send_event c (Utf8 ''[Server]: Server shutting down.'') s, Closed c]\<rparr>"
  by (simp add: close_on_stop_def prims)

lemma fold_reject_on_stop:
  "\<exists>new. fold reject_on_stop rs s
            = s\<lparr>closed := closed s \<union> req_conn ` set rs, trace := trace s @ new\<rparr>
         \<and> (\<forall>r\<in>set rs. rejected_on (req_conn r) new)"
proof (induction rs arbitrary: s)
  case Nil
  show ?case by (rule exI [of _ "[]"]) simp
next
  case (Cons r rs)
  let ?s1 = "reject_on_stop r s"
  define ev where "ev = send_event (req_conn r) (Utf8 ''REJECT'') s"
  have s1: "?s1 = s\<lparr>closed := insert (req_conn r) (closed s),
      trace := trace s @ [ev, Closed (req_conn r)]\<rparr>"
    by (simp add: reject_on_stop_eq ev_def)
  have ev: "ev = Sent (req_conn r) (Utf8 ''REJECT'') \<or> ev = SendFailed (req_conn r) (Utf8 ''REJECT'')"
    by (simp add: ev_def send_event_def)
  from Cons.IH [of ?s1] obtain new where
    f: "fold reject_on_stop rs ?s1
          = ?s1\<lparr>closed := closed ?s1 \<union> req_conn ` set rs, trace := trace ?s1 @ new\<rparr>"
    and n: "\<forall>r\<in>set rs. rejected_on (req_conn r) new"
    by blast
  have "fold reject_on_stop (r # rs) s
      = s\<lparr>closed := closed s \<union> req_conn ` set (r # rs),
           trace := trace s @ ([ev, Closed (req_conn r)] @ new)\<rparr>"
    by (simp add: f) (simp add: s1)
  moreover have "\<forall>q\<in>set (r # rs). rejected_on (req_conn q) ([ev, Closed (req_conn r)] @ new)"
    using n ev by (auto simp: rejected_on_def)
  ultimately show ?case by blast
qed

lemma fold_close_on_stop:
  "\<exists>new. fold close_on_stop cs s
            = s\<lparr>closed := closed s \<union> set cs, trace := trace s @ new\<rparr>"
proof (induction cs arbitrary: s)
  case Nil
  show ?case by (rule exI [of _ "[]"]) simp
next
  case (Cons c cs)
  let ?s1 = "close_on_stop c s"
  define ev where "ev = send_event c (Utf8 ''[Server]: Server shutting down.'') s"
  have s1: "?s1 = s\<lparr>closed := insert c (closed s),
      trace := trace s @ [ev, Closed c]\<rparr>"
    by (simp add: close_on_stop_eq ev_def)
  from Cons.IH [of ?s1] obtain new where
    f: "fold close_on_stop cs ?s1
          = ?s1\<lparr>closed := closed ?s1 \<union> set cs, trace := trace ?s1 @ new\<rparr>"
    by blast
  have "fold close_on_stop (c # cs) s
      = s\<lparr>closed := closed s \<union> set (c # cs), trace := trace s @ ([ev, Closed c] @ new)\<rparr>"
    by (simp add: f) (simp add: s1)
  then show ?case by blast
qed

text \<open>
  C2 as stated fails: after \<^verbatim>\<open>stop\<close> the event of request 1 is still not set, the entry is
  gone with no decision written, and the handshake thread still stands at \<^verbatim>\<open>ev.wait()\<close>.
\<close>

theorem stop_leaves_waiter_counterexample:
  "(let s' = state_of (cmd_stop bob_pending)
    in \<not> ev_set s' 1 \<and> pending s' = []
       \<and> handle_new_connection_resume 1 7 ''bob'' bob s' = Blocked s')"
  by (simp add: bob_pending_eq run_simps prims)

subsection \<open>What the lock does to broadcast and removal\<close>

text \<open>
  Called with \<^verbatim>\<open>clients_lock\<close> held, \<^verbatim>\<open>broadcast_message\<close>, \<^verbatim>\<open>broadcast_audio\<close> and
  \<^verbatim>\<open>_disconnect_conn\<close> stop at their \<^verbatim>\<open>with clients_lock:\<close>. So \<^verbatim>\<open>_disconnect_conn\<close> of a
  registered client pops it, closes it, prints, and then waits in its own call of
  \<^verbatim>\<open>broadcast_message\<close>; and the loop of a broadcast waits at the first send that raises.
\<close>

lemma broadcast_locked: "clients_lock s \<Longrightarrow> broadcast m ex s = Blocked s"
  by (simp add: broadcast.simps)

lemma disconnect_conn_locked: "clients_lock s \<Longrightarrow> disconnect_conn c s = Blocked s"
  by (simp add: disconnect_conn.simps)

lemma clients_acquire: "clients (acquire_clients s) = clients s"
  by (simp add: acquire_clients_def emit_def)

lemma disconnect_conn_free:
  assumes "\<not> clients_lock s"
  shows "disconnect_conn c s =
     (case map_of (clients s) c of
        None \<Rightarrow> Done () (release_clients (acquire_clients s))
      | Some u \<Rightarrow> Blocked (print (removed_line u)
                   (close_conn c ((acquire_clients s)\<lparr>clients := AList.delete c (clients s)\<rparr>))))"
proof (cases "map_of (clients s) c")
  case None
  with assms show ?thesis
    by (simp add: disconnect_conn.simps Let_def clients_acquire)
next
  case (Some u)
  let ?s2 = "print (removed_line u)
      (close_conn c ((acquire_clients s)\<lparr>clients := AList.delete c (clients s)\<rparr>))"
  have "broadcast (Utf8 (left_note u)) None ?s2 = Blocked ?s2"
    by (rule broadcast_locked) (rule clients_lock_removed)
  with assms Some show ?thesis
    by (simp add: disconnect_conn.simps Let_def clients_acquire)
qed

lemma send_loop_locked:
  "clients_lock s \<Longrightarrow> send_loop (c # cs) m ex s =
     (if ex = Some c then send_loop cs m ex s
      else if c \<in> closed s \<or> c \<in> broken s then Blocked (emit (SendFailed c m) s)
      else send_loop cs m ex (emit (Sent c m) s))"
  by (simp add: sendall_def disconnect_conn_locked emit_def)

lemma send_loop_trace:
  "clients_lock s \<Longrightarrow> \<exists>new. state_of (send_loop cs m ex s) = s\<lparr>trace := trace s @ new\<rparr>"
proof (induction cs arbitrary: s)
  case Nil
  show ?case by (rule exI [of _ "[]"]) simp
next
  case (Cons c cs)
  show ?case
  proof (cases "ex = Some c")
    case True
    with Cons show ?thesis by (simp add: send_loop_locked)
  next
    case False
    show ?thesis
    proof (cases "c \<in> closed s \<or> c \<in> broken s")
      case True
      with False Cons.prems
      have "state_of (send_loop (c # cs) m ex s) = s\<lparr>trace := trace s @ [SendFailed c m]\<rparr>"
        by (simp add: sendall_def disconnect_conn_locked emit_def)
      then show ?thesis by blast
    next
      case alive: False
      have "clients_lock (emit (Sent c m) s)" using Cons.prems by (simp add: emit_def)
      from Cons.IH [OF this] obtain new where
        "state_of (send_loop cs m ex (emit (Sent c m) s))
           = (emit (Sent c m) s)\<lparr>trace := trace (emit (Sent c m) s) @ new\<rparr>" by blast
      then have "state_of (send_loop (c # cs) m ex s) = s\<lparr>trace := trace s @ (Sent c m # new)\<rparr>"
        using False alive Cons.prems by (simp add: sendall_def emit_def)
      then show ?thesis by blast
    qed
  qed
qed

text \<open>When every peer the loop sends to is alive, it sends to each of them in order.\<close>

lemma send_loop_alive:
  assumes "\<forall>c\<in>set cs. ex \<noteq> Some c \<longrightarrow> c \<notin> closed s \<and> c \<notin> broken s"
  shows "send_loop cs m ex s =
     Done () (s\<lparr>trace := trace s @ map (\<lambda>c. Sent c m) (filter (\<lambda>c. ex \<noteq> Some c) cs)\<rparr>)"
  using assms
proof (induction cs arbitrary: s)
  case Nil
  show ?case by simp
next
  case (Cons c cs)
  show ?case
  proof (cases "ex = Some c")
    case True
    with Cons show ?thesis by simp
  next
    case False
    with Cons.prems have alive: "c \<notin> closed s" "c \<notin> broken s" by auto
    let ?s1 = "emit (Sent c m) s"
    have "\<forall>c\<in>set cs. ex \<noteq> Some c \<longrightarrow> c \<notin> closed ?s1 \<and> c \<notin> broken ?s1"
      using Cons.prems by (simp add: emit_def)
    from Cons.IH [OF this] show ?thesis
      using False alive by (simp add: sendall_def emit_def)
  qed
qed

lemma unlock_clients_same:
  "\<not> clients_lock s \<Longrightarrow> s\<lparr>clients_lock := False, trace := t\<rparr> = s\<lparr>trace := t\<rparr>"
  by (cases s) simp

lemma broadcast_alive:
  assumes "\<not> clients_lock s"
    and "\<forall>c\<in>set (map fst (clients s)). ex \<noteq> Some c \<longrightarrow> c \<notin> closed s \<and> c \<notin> broken s"
  shows "broadcast m ex s =
     Done () (s\<lparr>trace := trace s @ [Acquired ClientsLock]
        @ map (\<lambda>c. Sent c m) (filter (\<lambda>c. ex \<noteq> Some c) (map fst (clients s)))
        @ [Released ClientsLock]\<rparr>)"
proof -
  have "\<forall>c\<in>set (map fst (clients s)). ex \<noteq> Some c
      \<longrightarrow> c \<notin> closed (acquire_clients s) \<and> c \<notin> broken (acquire_clients s)"
    using assms(2) by (simp add: acquire_clients_def emit_def)
  from send_loop_alive [OF this, of m] show ?thesis
    using assms(1)
    by (simp add: broadcast.simps acquire_clients_def release_clients_def emit_def
        unlock_clients_same)
qed

subsection \<open>Relay and broadcast\<close>

text \<open>
  The examples: alice (socket 8), bob (socket 7) and carol (socket 9) are admitted in this
  order and get the ids 1, 2 and 3.
\<close>

definition alice :: addr where "alice = (''10.0.0.4'', 40001)"
definition carol :: addr where "carol = (''10.0.0.6'', 40002)"

definition three_clients :: "server_mode \<Rightarrow> state" where
  "three_clients m = run ascii_decode
     [NewConnection 8 alice (Data ''NAME:alice''), Operator (CmdAccept 1),
      Resume 1 8 ''alice'' alice,
      NewConnection 7 bob (Data ''NAME:bob''), Operator (CmdAccept 2),
      Resume 2 7 ''bob'' bob,
      NewConnection 9 carol (Data ''NAME:carol''), Operator (CmdAccept 3),
      Resume 3 9 ''carol'' carol] (initial m)"

lemma three_clients_fields:
  "clients (three_clients m) =
     [(8, \<lparr>user_id = 1, user_name = ''alice'', user_addr = alice\<rparr>),
      (7, \<lparr>user_id = 2, user_name = ''bob'', user_addr = bob\<rparr>),
      (9, \<lparr>user_id = 3, user_name = ''carol'', user_addr = carol\<rparr>)]"
  "\<not> clients_lock (three_clients m)" "closed (three_clients m) = {}"
  "broken (three_clients m) = {}" "running (three_clients m)" "mode (three_clients m) = m"
  "next_user_id (three_clients m) = 4"
  by (simp_all add: three_clients_def run_simps prims)

lemmas lock_forms = broadcast_message_def broadcast_audio_def broadcast.simps
  disconnect_conn_free disconnect_conn_locked sendall_def emit_def acquire_clients_def
  release_clients_def print_def close_conn_def

text \<open>
  C1 fails on the code. Both broadcast functions send inside \<^verbatim>\<open>with clients_lock:\<close>: in the
  trace every send stands between the acquire and the release of the lock. And the
  notification of a removal is never sent: \<^verbatim>\<open>_disconnect_conn\<close> calls \<^verbatim>\<open>broadcast_message\<close> with
  the lock held, so the call waits for the lock its own thread holds, with bob popped and
  closed, and the lock stays taken.
\<close>

theorem broadcast_sends_under_lock:
  "trace (state_of (broadcast_message ''hi'' None (three_clients MESSAGING)))
     = trace (three_clients MESSAGING) @
       [Acquired ClientsLock, Sent 8 (Utf8 ''hi''), Sent 7 (Utf8 ''hi''), Sent 9 (Utf8 ''hi''),
        Released ClientsLock]
   \<and> trace (state_of (broadcast_audio ''pcm'' (Some 8) (three_clients VOICE)))
     = trace (three_clients VOICE) @
       [Acquired ClientsLock, Sent 7 (Raw ''pcm''), Sent 9 (Raw ''pcm''), Released ClientsLock]
   \<and> (case disconnect_conn 7 (three_clients MESSAGING) of
         Done _ _ \<Rightarrow> False
       | Blocked s' \<Rightarrow>
           clients_lock s' \<and> map fst (clients s') = [8, 9]
           \<and> trace s' = trace (three_clients MESSAGING) @
               [Acquired ClientsLock, Closed 7,
                Printed (removed_line \<lparr>user_id = 2, user_name = ''bob'', user_addr = bob\<rparr>)])"
  by (simp add: lock_forms three_clients_fields)

text \<open>
  C6 fails on the code when a send raises. Bob's connection is lost; alice sends \<^verbatim>\<open>hi\<close>. The
  send to bob raises, the handler calls \<^verbatim>\<open>_disconnect_conn\<close> inside the locked region, and the
  relay thread waits there for ever: carol, registered and alive, is never sent
  \<^verbatim>\<open>alice: hi\<close>. (When every send returns, the relay is as C6 says: \<open>messaging_chunk_alive\<close>
  and \<open>messaging_chunk_ignored\<close> below.)
\<close>

theorem messaging_relay_blocks_on_dead_peer:
  "(let s = step ascii_decode (PeerLost 7) (three_clients MESSAGING)
    in case messaging_chunk ascii_decode 8 ''alice'' (Data ''hi'') s of
         Done _ _ \<Rightarrow> False
       | Blocked s' \<Rightarrow>
           clients_lock s'
           \<and> trace s' = trace s @
               [Printed ''alice: hi'', Acquired ClientsLock, SendFailed 7 (Utf8 ''alice: hi'')])"
  by (simp add: step_def messaging_chunk_def ascii_decode_def strip_def is_space_def lower_def
      lower_char_def Let_def lock_forms three_clients_fields)

text \<open>
  C7 fails on the code in the same way: the chunk is not forwarded to carol once the send
  to bob has raised. (When every send returns, the relay is as C7 says: \<open>voice_chunk_alive\<close>
  and \<open>voice_chunk_exits\<close> below.)
\<close>

theorem voice_relay_blocks_on_dead_peer:
  "(let s = step ascii_decode (PeerLost 7) (three_clients VOICE)
    in case voice_chunk ascii_decode 8 (Data ''pcm'') s of
         Done _ _ \<Rightarrow> False
       | Blocked s' \<Rightarrow>
           clients_lock s'
           \<and> trace s' = trace s @ [Acquired ClientsLock, SendFailed 7 (Raw ''pcm'')])"
  by (simp add: step_def voice_chunk_def ascii_decode_def strip_def is_space_def lower_def
      lower_char_def Let_def lock_forms three_clients_fields)

text \<open>The relay of one payload when every other registered peer is alive.\<close>

lemma messaging_chunk_alive:
  assumes "\<not> clients_lock s"
    and "\<forall>c\<in>set (map fst (clients s)). c \<noteq> conn \<longrightarrow> c \<notin> closed s \<and> c \<notin> broken s"
    and "data \<noteq> []" and "strip (dec data) \<noteq> []" and "lower (strip (dec data)) \<noteq> ''leave''"
  shows "messaging_chunk dec conn name (Data data) s =
     Done Continue (s\<lparr>trace := trace s
        @ [Printed (name @ '': '' @ strip (dec data)), Acquired ClientsLock]
        @ map (\<lambda>c. Sent c (Utf8 (name @ '': '' @ strip (dec data))))
            (filter (\<lambda>c. c \<noteq> conn) (map fst (clients s)))
        @ [Released ClientsLock]\<rparr>)"
proof -
  let ?s1 = "print (name @ '': '' @ strip (dec data)) s"
  have a: "\<not> clients_lock ?s1" using assms(1) by (simp add: print_def emit_def)
  have b: "\<forall>c\<in>set (map fst (clients ?s1)). Some conn \<noteq> Some c
      \<longrightarrow> c \<notin> closed ?s1 \<and> c \<notin> broken ?s1"
    using assms(2) by (auto simp: print_def emit_def)
  have c: "(\<lambda>c. conn \<noteq> c) = (\<lambda>c. c \<noteq> conn)" by auto
  show ?thesis
    using assms(3-5) broadcast_alive [OF a b, of "Utf8 (name @ '': '' @ strip (dec data))"]
    by (simp add: messaging_chunk_def Let_def broadcast_message_def print_def emit_def c)
qed

lemma messaging_chunk_ignored:
  "data \<noteq> [] \<Longrightarrow> strip (dec data) = [] \<Longrightarrow>
   messaging_chunk dec conn name (Data data) s = Done Continue s"
  by (simp add: messaging_chunk_def)

lemma voice_chunk_alive:
  assumes "\<not> clients_lock s"
    and "\<forall>c\<in>set (map fst (clients s)). c \<noteq> conn \<longrightarrow> c \<notin> closed s \<and> c \<notin> broken s"
    and "data \<noteq> []" and "\<not> (length data < 64 \<and> lower (strip (dec data)) = ''leave'')"
  shows "voice_chunk dec conn (Data data) s =
     Done Continue (s\<lparr>trace := trace s @ [Acquired ClientsLock]
        @ map (\<lambda>c. Sent c (Raw data)) (filter (\<lambda>c. c \<noteq> conn) (map fst (clients s)))
        @ [Released ClientsLock]\<rparr>)"
proof -
  have b: "\<forall>c\<in>set (map fst (clients s)). Some conn \<noteq> Some c
      \<longrightarrow> c \<notin> closed s \<and> c \<notin> broken s"
    using assms(2) by auto
  have c: "(\<lambda>c. conn \<noteq> c) = (\<lambda>c. c \<noteq> conn)" by auto
  show ?thesis
    using assms(3,4) broadcast_alive [OF assms(1) b, of "Raw data"]
    by (auto simp: voice_chunk_def broadcast_audio_def c)
qed

lemma voice_chunk_exits:
  "voice_chunk dec conn (Data []) s = Done Break s"
  "length data < 64 \<Longrightarrow> lower (strip (dec data)) = ''leave'' \<Longrightarrow>
   voice_chunk dec conn (Data data) s = Done Break s"
  by (simp_all add: voice_chunk_def)






subsection \<open>Identifiers\<close>

text \<open>
  The ids in use. \<open>keeps s s'\<close>: from \<open>s\<close> to \<open>s'\<close> no id was given out, ids may have gone.
  \<open>grows s s'\<close>: the counters did not go back, and every id in use in \<open>s'\<close> was in use in \<open>s\<close>
  or was taken from a counter in between.
\<close>

definition client_ids :: "state \<Rightarrow> int set" where
  "client_ids s = user_id ` snd ` set (clients s)"

definition pending_ids :: "state \<Rightarrow> int set" where
  "pending_ids s = fst ` set (pending s)"

definition keeps :: "state \<Rightarrow> state \<Rightarrow> bool" where
  "keeps s s' =
     (next_user_id s' = next_user_id s \<and> next_pending_id s' = next_pending_id s
      \<and> pending_ids s' \<subseteq> pending_ids s \<and> client_ids s' \<subseteq> client_ids s)"

definition grows :: "state \<Rightarrow> state \<Rightarrow> bool" where
  "grows s s' =
     (next_user_id s \<le> next_user_id s' \<and> next_pending_id s \<le> next_pending_id s'
      \<and> client_ids s' \<subseteq> client_ids s \<union> {next_user_id s ..< next_user_id s'}
      \<and> pending_ids s' \<subseteq> pending_ids s \<union> {next_pending_id s ..< next_pending_id s'})"

lemma keeps_refl [simp]: "keeps s s"
  by (simp add: keeps_def)

lemma keeps_trans: "keeps s t \<Longrightarrow> keeps t u \<Longrightarrow> keeps s u"
  by (auto simp: keeps_def)

lemma keeps_grows: "keeps s t \<Longrightarrow> grows s t"
  by (auto simp: keeps_def grows_def)

lemma grows_refl [simp]: "grows s s"
  by (simp add: keeps_grows)

lemma grows_trans: "grows s t \<Longrightarrow> grows t u \<Longrightarrow> grows s u"
  unfolding grows_def by (intro conjI; force)

lemma keeps_fields:
  "next_user_id t = next_user_id s \<Longrightarrow> next_pending_id t = next_pending_id s \<Longrightarrow>
   pending t = pending s \<Longrightarrow> set (clients t) \<subseteq> set (clients s) \<Longrightarrow> keeps s t"
  by (auto simp: keeps_def client_ids_def pending_ids_def)

lemma set_delete_subset: "set (AList.delete k al) \<subseteq> set al"
  by (auto simp: AList.delete_eq)

lemma keeps_broadcast: "keeps s (state_of (broadcast m ex s))"
proof (cases "clients_lock s")
  case True
  then show ?thesis by (simp add: broadcast_locked)
next
  case False
  have "clients_lock (acquire_clients s)" by (simp add: acquire_clients_def emit_def)
  from send_loop_trace [OF this, of "map fst (clients s)" m ex] obtain new where
    n: "state_of (send_loop (map fst (clients s)) m ex (acquire_clients s))
          = (acquire_clients s)\<lparr>trace := trace (acquire_clients s) @ new\<rparr>" by blast
  show ?thesis
  proof (cases "send_loop (map fst (clients s)) m ex (acquire_clients s)")
    case (Done u t)
    with n False show ?thesis
      by (simp add: broadcast.simps keeps_fields prims)
  next
    case (Blocked t)
    with n False show ?thesis
      by (simp add: broadcast.simps keeps_fields prims)
  qed
qed

lemma keeps_disconnect_conn: "keeps s (state_of (disconnect_conn c s))"
proof (cases "clients_lock s")
  case True
  then show ?thesis by (simp add: disconnect_conn_locked)
next
  case False
  then show ?thesis
    by (cases "map_of (clients s) c")
       (simp_all add: disconnect_conn_free keeps_fields prims set_delete_subset)
qed

lemma keeps_prims [simp]:
  "keeps s (emit e s)" "keeps s (print l s)" "keeps s (snd (sendall c m s))"
  "keeps s (close_conn c s)" "keeps s (acquire_clients s)" "keeps s (release_clients s)"
  "keeps s (acquire_pending s)" "keeps s (release_pending s)"
  by (simp_all add: keeps_fields prims)

lemma keeps_then [simp]:
  "keeps s t \<Longrightarrow> keeps s (emit e t)" "keeps s t \<Longrightarrow> keeps s (print l t)"
  "keeps s t \<Longrightarrow> keeps s (snd (sendall c m t))" "keeps s t \<Longrightarrow> keeps s (close_conn c t)"
  "keeps s t \<Longrightarrow> keeps s (acquire_clients t)" "keeps s t \<Longrightarrow> keeps s (release_clients t)"
  "keeps s t \<Longrightarrow> keeps s (acquire_pending t)" "keeps s t \<Longrightarrow> keeps s (release_pending t)"
  by (erule keeps_trans, simp)+

lemma keeps_broadcast_then: "keeps s t \<Longrightarrow> keeps s (state_of (broadcast m ex t))"
  by (erule keeps_trans) (rule keeps_broadcast)

lemma keeps_disconnect_then: "keeps s t \<Longrightarrow> keeps s (state_of (disconnect_conn c t))"
  by (erule keeps_trans) (rule keeps_disconnect_conn)

lemma state_of_unit_case:
  "state_of (case r of Done x t \<Rightarrow> Done y (f t) | Blocked t \<Rightarrow> Blocked t)
     = (case r of Done x t \<Rightarrow> f t | Blocked t \<Rightarrow> t)"
  by (cases r) simp_all

lemma keeps_case:
  "keeps s (state_of r) \<Longrightarrow> (\<And>t. keeps s t \<Longrightarrow> keeps s (f t)) \<Longrightarrow>
   keeps s (case r of Done x t \<Rightarrow> f t | Blocked t \<Rightarrow> t)"
  by (cases r) simp_all

lemma grows_new_connection: "grows s (state_of (handle_new_connection dec c a r s))"
proof (cases r)
  case (Data raw)
  show ?thesis
  proof (cases "startswith (strip (dec raw)) ''NAME:'' \<and> \<not> pending_lock s")
    case True
    then show ?thesis
      by (auto simp: Data handle_new_connection_def Let_def grows_def client_ids_def
          pending_ids_def prims dom_update)
  next
    case False
    then have "keeps s (state_of (handle_new_connection dec c a r s))"
      by (auto simp: Data handle_new_connection_def Let_def)
    then show ?thesis by (rule keeps_grows)
  qed
qed (simp_all add: handle_new_connection_def keeps_grows)

lemma set_update_subset: "set (AList.update k v al) \<subseteq> insert (k, v) (set al)"
  by (induction al) auto

lemma client_ids_update:
  "user_id ` snd ` set (AList.update c u al) \<subseteq> insert (user_id u) (user_id ` snd ` set al)"
  using set_update_subset [of c u al] by force

lemma grows_register:
  "grows s (release_clients ((acquire_clients s)\<lparr>next_user_id := next_user_id (acquire_clients s) + 1,
      clients := AList.update c \<lparr>user_id = next_user_id (acquire_clients s), user_name = name,
        user_addr = a\<rparr> (clients (acquire_clients s))\<rparr>))"
  (is "grows s ?t")
proof -
  have a: "next_user_id ?t = next_user_id s + 1" "next_pending_id ?t = next_pending_id s"
    "pending_ids ?t = pending_ids s"
    by (simp_all add: pending_ids_def prims)
  have b: "client_ids ?t \<subseteq> insert (next_user_id s) (client_ids s)"
    using client_ids_update [of c "\<lparr>user_id = next_user_id s, user_name = name, user_addr = a\<rparr>"
      "clients s"]
    by (simp add: client_ids_def prims)
  show ?thesis
    unfolding grows_def a using b by auto
qed

lemma keeps_admit_tail:
  "keeps s4 (state_of (case sendall c m s4 of
              (False, s5) \<Rightarrow> (case disconnect_conn c s5 of
                   Done _ s6 \<Rightarrow> Done None s6 | Blocked s6 \<Rightarrow> Blocked s6)
            | (True, s5) \<Rightarrow> Done (Some uid) (print (f s5) s5)))"
proof (cases "sendall c m s4")
  case (Pair ok s5)
  have "keeps s4 (snd (sendall c m s4))" by simp
  then have k: "keeps s4 s5" by (simp add: Pair)
  show ?thesis
  proof (cases ok)
    case True
    with Pair k show ?thesis by simp
  next
    case False
    have "keeps s4 (state_of (disconnect_conn c s5))"
      using k by (rule keeps_disconnect_then)
    with Pair False show ?thesis
      by (cases "disconnect_conn c s5") simp_all
  qed
qed

lemma keeps_pop:
  "keeps s (release_pending ((acquire_pending s)\<lparr>pending := AList.delete pid
      (pending (acquire_pending s))\<rparr>))"
  using dom_delete_subset [of pid "pending s"]
  by (auto simp: keeps_def client_ids_def pending_ids_def prims)

lemma grows_keeps: "grows s t \<Longrightarrow> keeps t u \<Longrightarrow> grows s u"
  by (blast intro: grows_trans keeps_grows)

lemma keeps_grows_then: "keeps s t \<Longrightarrow> grows t u \<Longrightarrow> grows s u"
  by (blast intro: grows_trans keeps_grows)

lemma grows_resume: "grows s (state_of (handle_new_connection_resume pid c name a s))"
proof (cases "ev_set s pid \<and> \<not> pending_lock s")
  case False
  then show ?thesis by (auto simp: handle_new_connection_resume_def)
next
  case True
  let ?s2 = "release_pending ((acquire_pending s)\<lparr>pending := AList.delete pid
      (pending (acquire_pending s))\<rparr>)"
  have k2: "keeps s ?s2" by (rule keeps_pop)
  show ?thesis
  proof (cases "map_of (pending (acquire_pending s)) pid")
    case None
    with True k2 show ?thesis
      by (simp add: handle_new_connection_resume_def Let_def keeps_grows)
  next
    case (Some i)
    show ?thesis
    proof (cases "decision i = Some True \<and> \<not> clients_lock ?s2")
      case False
      with True Some k2 show ?thesis
        by (auto simp: handle_new_connection_resume_def Let_def keeps_grows)
    next
      case acc: True
      let ?s4 = "release_clients ((acquire_clients ?s2)\<lparr>next_user_id := next_user_id (acquire_clients ?s2) + 1,
          clients := AList.update c \<lparr>user_id = next_user_id (acquire_clients ?s2), user_name = name,
            user_addr = a\<rparr> (clients (acquire_clients ?s2))\<rparr>)"
      have g4: "grows s ?s4" using k2 grows_register by (rule keeps_grows_then)
      have "grows s (state_of (case sendall c (Utf8 (''MODE:'' @ str_mode (mode ?s4))) ?s4 of
              (False, s5) \<Rightarrow> (case disconnect_conn c s5 of
                   Done _ s6 \<Rightarrow> Done None s6 | Blocked s6 \<Rightarrow> Blocked s6)
            | (True, s5) \<Rightarrow> Done (Some (next_user_id (acquire_clients ?s2)))
                 (print (accepted_line name (next_user_id (acquire_clients ?s2)) a
                    (length (clients s5))) s5)))"
        using g4 keeps_admit_tail by (rule grows_keeps)
      with True Some acc show ?thesis
        by (simp add: handle_new_connection_resume_def Let_def)
    qed
  qed
qed

lemma state_of_same_case:
  "state_of (case r of Done x t \<Rightarrow> Done y t | Blocked t \<Rightarrow> Blocked t) = state_of r"
  by (cases r) simp_all

lemma keeps_voice_entry: "keeps s (state_of (voice_entry c uid name s))"
  by (simp add: voice_entry_def Let_def broadcast_message_def keeps_broadcast_then)

lemma keeps_messaging_entry: "keeps s (state_of (messaging_entry c uid name s))"
  using keeps_broadcast [of s "Utf8 (user_joined_note name uid)" "Some c"]
  by (cases "broadcast (Utf8 (user_joined_note name uid)) (Some c) s")
     (simp_all add: messaging_entry_def broadcast_message_def)

lemma keeps_voice_chunk: "keeps s (state_of (voice_chunk dec c r s))"
  by (cases r)
     (simp_all add: voice_chunk_def broadcast_audio_def state_of_same_case keeps_broadcast)

lemma keeps_messaging_chunk: "keeps s (state_of (messaging_chunk dec c name r s))"
  by (cases r)
     (simp_all add: messaging_chunk_def Let_def broadcast_message_def state_of_same_case
        keeps_broadcast_then)

lemma keeps_fold_print:
  "keeps s t \<Longrightarrow> keeps s (fold (\<lambda>(k, v). print (g k v)) xs t)"
  by (induction xs arbitrary: t) (auto simp: split_def)

lemma keeps_cmd_pending: "keeps s (state_of (cmd_pending s))"
  by (simp add: cmd_pending_def Let_def keeps_fold_print)

lemma keeps_cmd_list: "keeps s (state_of (cmd_list s))"
  by (simp add: cmd_list_def Let_def keeps_fold_print)

lemma keeps_resolve: "keeps s (state_of (resolve d w pid s))"
proof (cases "pending_lock s")
  case True
  then show ?thesis by (simp add: resolve_def)
next
  case False
  show ?thesis
  proof (cases "map_of (pending s) pid")
    case None
    with False show ?thesis by (simp add: resolve_def Let_def prims keeps_fields)
  next
    case (Some r)
    then have "pid \<in> fst ` set (pending s)"
      by (force dest: map_of_SomeD)
    then have "fst ` set (AList.update pid (r\<lparr>decision := Some d\<rparr>) (pending s))
        = fst ` set (pending s)"
      by (auto simp: dom_update)
    with False Some show ?thesis
      by (simp add: resolve_def Let_def prims keeps_def client_ids_def pending_ids_def)
  qed
qed

lemma keeps_cmd_kick: "keeps s (state_of (cmd_kick uid s))"
proof (cases "clients_lock s")
  case True
  then show ?thesis by (simp add: cmd_kick_def)
next
  case False
  show ?thesis
  proof (cases "find (\<lambda>(c, u). user_id u = uid) (clients (acquire_clients s))")
    case None
    with False show ?thesis by (simp add: cmd_kick_def Let_def)
  next
    case (Some p)
    obtain c u where p: "p = (c, u)" by (cases p)
    let ?m = "Utf8 ''[Server]: You were kicked by admin.''"
    have "keeps s (state_of (disconnect_conn c (snd (sendall c ?m (acquire_clients s)))))"
      by (intro keeps_disconnect_then) simp
    with False Some p show ?thesis
      by (cases "disconnect_conn c (snd (sendall c ?m (acquire_clients s)))")
         (simp_all add: cmd_kick_def Let_def)
  qed
qed

lemma keeps_cmd_broadcast: "keeps s (state_of (cmd_broadcast arg s))"
  using keeps_broadcast [of s "Utf8 (''[Server]: '' @ arg)" None]
  by (cases "broadcast (Utf8 (''[Server]: '' @ arg)) None s")
     (simp_all add: cmd_broadcast_def broadcast_message_def)

lemma keeps_fold_reject: "keeps s (fold reject_on_stop rs s)"
  using fold_reject_on_stop [of rs s] by (auto simp: keeps_fields)

lemma keeps_fold_close: "keeps s (fold close_on_stop cs s)"
  using fold_close_on_stop [of cs s] by (auto simp: keeps_fields)

lemma keeps_clear_pending: "keeps s (s\<lparr>pending := []\<rparr>)"
  by (simp add: keeps_def client_ids_def pending_ids_def)

lemma keeps_clear_clients: "keeps s (s\<lparr>clients := []\<rparr>)"
  by (simp add: keeps_def client_ids_def pending_ids_def)

lemma keeps_running: "keeps s (s\<lparr>running := b\<rparr>)"
  by (simp add: keeps_fields)

lemma keeps_cmd_stop: "keeps s (state_of (cmd_stop s))"
proof -
  let ?s0 = "(print ''Stopping server...'' s)\<lparr>running := False\<rparr>"
  let ?s1 = "fold reject_on_stop (map snd (pending ?s0)) (acquire_pending ?s0)"
  let ?s2 = "release_pending (?s1\<lparr>pending := []\<rparr>)"
  let ?s3 = "fold close_on_stop (map fst (clients ?s2)) (acquire_clients ?s2)"
  let ?s4 = "release_clients (?s3\<lparr>clients := []\<rparr>)"
  have k0: "keeps s ?s0"
    by (rule keeps_trans [OF _ keeps_running]) (rule keeps_prims)
  have k1: "keeps s ?s1"
    by (rule keeps_trans [OF _ keeps_fold_reject]) (rule keeps_then(7) [OF k0])
  have k2: "keeps s ?s2"
    by (rule keeps_then(8) [OF keeps_trans [OF k1 keeps_clear_pending]])
  have k3: "keeps s ?s3"
    by (rule keeps_trans [OF _ keeps_fold_close]) (rule keeps_then(5) [OF k2])
  have k4: "keeps s (emit ListenerClosed ?s4)"
    by (rule keeps_then(1) [OF keeps_then(6) [OF keeps_trans [OF k3 keeps_clear_clients]]])
  show ?thesis
    using k0 k2 k4 by (simp add: cmd_stop_def Let_def)
qed

lemma keeps_operator: "keeps s (state_of (operator_command cmd s))"
  by (cases cmd)
     (simp_all add: operator_command_def cmd_accept_def cmd_reject_def keeps_cmd_pending
        keeps_resolve keeps_cmd_list keeps_cmd_kick keeps_cmd_broadcast keeps_cmd_stop)

lemma grows_step: "grows s (step dec act s)"
  by (cases act)
     (simp_all add: step_def grows_new_connection grows_resume keeps_grows keeps_voice_entry
        keeps_messaging_entry keeps_voice_chunk keeps_messaging_chunk keeps_disconnect_conn
        keeps_operator keeps_fields)

lemma grows_run: "grows s (run dec acts s)"
proof (induction acts arbitrary: s)
  case Nil
  show ?case by simp
next
  case (Cons act acts)
  have "grows s (step dec act s)" by (rule grows_step)
  moreover have "grows (step dec act s) (run dec acts (step dec act s))" by (rule Cons.IH)
  ultimately show ?case by (simp add: grows_trans)
qed

lemma run_append: "run dec (xs @ ys) s = run dec ys (run dec xs s)"
  by (induction xs arbitrary: s) simp_all

lemma initial_ids:
  "client_ids (initial m) = {}" "pending_ids (initial m) = {}"
  "next_user_id (initial m) = 1" "next_pending_id (initial m) = 1"
  by (simp_all add: client_ids_def pending_ids_def initial_def)

lemma resume_assigns_counter:
  assumes "handle_new_connection_resume pid c name a s = Done (Some uid) t"
  shows "uid = next_user_id s \<and> next_user_id t = uid + 1
       \<and> map_of (clients t) c = Some \<lparr>user_id = uid, user_name = name, user_addr = a\<rparr>"
  using assms
  by (auto simp: handle_new_connection_resume_def Let_def prims update_conv'
      split: if_splits option.splits result.splits)

lemma handshake_assigns_counter:
  assumes "handle_new_connection dec c a r s = Done (Some (pid, name)) t"
  shows "pid = next_pending_id s \<and> next_pending_id t = pid + 1 \<and> pid \<in> pending_ids t"
  using assms
  by (auto simp: handle_new_connection_def Let_def prims pending_ids_def dom_update
      split: if_splits recv.splits)

text \<open>
  C9. Take any run of the process from its start to a state \<open>s\<close>, and any continuation to
  \<open>s'\<close>. In \<open>s\<close> every client id and every pending id in use is below its counter; the
  counters never go back; an id below the counter that is not in use (it was given out and
  its client or request is gone, by disconnect, kick, shutdown or pop) is not in use in
  \<open>s'\<close> either; and an admission or a handshake from \<open>s\<close> gives out exactly the value of the
  counter and moves the counter past it.
\<close>

theorem ids_never_reused:
  "(let s = run dec acts (initial m); s' = run dec later s
    in (\<forall>i\<in>client_ids s. 1 \<le> i \<and> i < next_user_id s)
     \<and> (\<forall>p\<in>pending_ids s. 1 \<le> p \<and> p < next_pending_id s)
     \<and> next_user_id s \<le> next_user_id s' \<and> next_pending_id s \<le> next_pending_id s'
     \<and> (\<forall>i. i < next_user_id s \<and> i \<notin> client_ids s \<longrightarrow> i \<notin> client_ids s')
     \<and> (\<forall>p. p < next_pending_id s \<and> p \<notin> pending_ids s \<longrightarrow> p \<notin> pending_ids s')
     \<and> (\<forall>pid c name a uid t.
           handle_new_connection_resume pid c name a s = Done (Some uid) t
           \<longrightarrow> uid = next_user_id s \<and> next_user_id t = uid + 1
               \<and> map_of (clients t) c = Some \<lparr>user_id = uid, user_name = name, user_addr = a\<rparr>)
     \<and> (\<forall>c a r pid name t.
           handle_new_connection dec c a r s = Done (Some (pid, name)) t
           \<longrightarrow> pid = next_pending_id s \<and> next_pending_id t = pid + 1 \<and> pid \<in> pending_ids t))"
proof -
  define s where "s = run dec acts (initial m)"
  define s' where "s' = run dec later s"
  have g0: "grows (initial m) s" unfolding s_def by (rule grows_run)
  have g1: "grows s s'" unfolding s'_def by (rule grows_run)
  have a: "\<forall>i\<in>client_ids s. 1 \<le> i \<and> i < next_user_id s"
    using g0 by (auto simp: grows_def initial_ids)
  have b: "\<forall>p\<in>pending_ids s. 1 \<le> p \<and> p < next_pending_id s"
    using g0 by (auto simp: grows_def initial_ids)
  have c: "next_user_id s \<le> next_user_id s' \<and> next_pending_id s \<le> next_pending_id s'"
    using g1 by (simp add: grows_def)
  have d: "\<forall>i. i < next_user_id s \<and> i \<notin> client_ids s \<longrightarrow> i \<notin> client_ids s'"
    using g1 by (auto simp: grows_def)
  have e: "\<forall>p. p < next_pending_id s \<and> p \<notin> pending_ids s \<longrightarrow> p \<notin> pending_ids s'"
    using g1 by (auto simp: grows_def)
  show ?thesis
    unfolding Let_def s_def [symmetric] s'_def [symmetric]
    using a b c d e resume_assigns_counter handshake_assigns_counter by blast
qed

text \<open>
  The witness: bob (id 2) leaves after three admissions; a fourth peer then asks to be
  admitted. Id 2 is below the counter and not in use, and stays out of use.
\<close>

definition dave :: addr where "dave = (''10.0.0.7'', 40003)"

definition admit_three :: "action list" where
  "admit_three =
     [NewConnection 8 alice (Data ''NAME:alice''), Operator (CmdAccept 1),
      Resume 1 8 ''alice'' alice,
      NewConnection 7 bob (Data ''NAME:bob''), Operator (CmdAccept 2),
      Resume 2 7 ''bob'' bob,
      NewConnection 9 carol (Data ''NAME:carol''), Operator (CmdAccept 3),
      Resume 3 9 ''carol'' carol]"

theorem ids_never_reused_witness:
  "(let s = run ascii_decode (admit_three @ [SessionExit 7]) (initial MESSAGING);
        s' = run ascii_decode [NewConnection 10 dave (Data ''NAME:dave''), Operator (CmdAccept 4),
               Resume 4 10 ''dave'' dave] s
    in client_ids s = {1, 3} \<and> next_user_id s = 4 \<and> 2 \<notin> client_ids s'
       \<and> 4 \<le> next_user_id s')"
proof -
  let ?s = "run ascii_decode (admit_three @ [SessionExit 7]) (initial MESSAGING)"
  let ?later = "[NewConnection 10 dave (Data ''NAME:dave''), Operator (CmdAccept 4),
               Resume 4 10 ''dave'' dave]"
  have s: "?s = state_of (disconnect_conn 7 (three_clients MESSAGING))"
    by (simp add: run_append three_clients_def admit_three_def step_def)
  have ids: "client_ids ?s = {1, 3}" and nxt: "next_user_id ?s = 4"
    unfolding s
    by (simp_all add: client_ids_def disconnect_conn_free three_clients_fields prims)
  note T = ids_never_reused [of ascii_decode "admit_three @ [SessionExit 7]" MESSAGING ?later,
      unfolded Let_def]
  have le: "next_user_id ?s \<le> next_user_id (run ascii_decode ?later ?s)"
    using T by blast
  have "2 < next_user_id ?s \<and> 2 \<notin> client_ids ?s \<longrightarrow> 2 \<notin> client_ids (run ascii_decode ?later ?s)"
    using T by blast
  with ids nxt le show ?thesis
    unfolding Let_def by simp
qed

subsection \<open>Shutdown, event by event\<close>

text \<open>
  What the two loops of \<^verbatim>\<open>stop\<close> do to the sockets \<open>cs\<close>, in order: for each socket a
  \<^verbatim>\<open>sendall\<close> of \<open>m\<close>, which raises on the sockets in \<open>dead\<close>, and then its \<^verbatim>\<open>close\<close>, after
  which the socket is dead too.
\<close>

fun stop_events :: "payload \<Rightarrow> conn list \<Rightarrow> conn set \<Rightarrow> event list" where
  "stop_events m [] dead = []"
| "stop_events m (c # cs) dead =
     (if c \<in> dead then SendFailed c m else Sent c m) # Closed c
       # stop_events m cs (insert c dead)"

lemma fold_reject_exact:
  "fold reject_on_stop rs s
     = s\<lparr>closed := closed s \<union> req_conn ` set rs,
          trace := trace s @ stop_events (Utf8 ''REJECT'') (map req_conn rs)
                     (closed s \<union> broken s)\<rparr>"
proof (induction rs arbitrary: s)
  case Nil
  show ?case by simp
next
  case (Cons r rs)
  show ?case
    by (simp add: Cons.IH) (simp add: reject_on_stop_eq send_event_def)
qed

lemma fold_close_exact:
  "fold close_on_stop cs s
     = s\<lparr>closed := closed s \<union> set cs,
          trace := trace s @ stop_events (Utf8 ''[Server]: Server shutting down.'') cs
                     (closed s \<union> broken s)\<rparr>"
proof (induction cs arbitrary: s)
  case Nil
  show ?case by simp
next
  case (Cons c cs)
  show ?case
    by (simp add: Cons.IH) (simp add: close_on_stop_eq send_event_def)
qed

text \<open>
  No thread function keeps \<^verbatim>\<open>pending_lock\<close>: each leaves the lock as it found it, so in every
  state the process reaches from its start the lock is free.
\<close>

lemma pl_broadcast: "pending_lock (state_of (broadcast m ex s)) = pending_lock s"
proof (cases "clients_lock s")
  case True
  then show ?thesis by (simp add: broadcast_locked)
next
  case False
  have "clients_lock (acquire_clients s)" by (simp add: acquire_clients_def emit_def)
  from send_loop_trace [OF this, of "map fst (clients s)" m ex] obtain new where
    n: "state_of (send_loop (map fst (clients s)) m ex (acquire_clients s))
          = (acquire_clients s)\<lparr>trace := trace (acquire_clients s) @ new\<rparr>" by blast
  show ?thesis
    using n False
    by (cases "send_loop (map fst (clients s)) m ex (acquire_clients s)")
       (simp_all add: broadcast.simps prims)
qed

lemma pl_disconnect_conn: "pending_lock (state_of (disconnect_conn c s)) = pending_lock s"
proof (cases "clients_lock s")
  case True
  then show ?thesis by (simp add: disconnect_conn_locked)
next
  case False
  then show ?thesis
    by (cases "map_of (clients s) c") (simp_all add: disconnect_conn_free prims)
qed

lemma pl_prims [simp]:
  "pending_lock (emit e s) = pending_lock s" "pending_lock (print l s) = pending_lock s"
  "pending_lock (snd (sendall c m s)) = pending_lock s"
  "pending_lock (close_conn c s) = pending_lock s"
  "pending_lock (acquire_clients s) = pending_lock s"
  "pending_lock (release_clients s) = pending_lock s"
  "pending_lock (acquire_pending s)" "\<not> pending_lock (release_pending s)"
  by (simp_all add: prims)

lemma pl_new_connection:
  "pending_lock (state_of (handle_new_connection dec c a r s)) = pending_lock s"
  by (cases r) (auto simp: handle_new_connection_def Let_def)

lemma pl_admit_tail:
  "pending_lock (state_of (case sendall c m s4 of
              (False, s5) \<Rightarrow> (case disconnect_conn c s5 of
                   Done _ s6 \<Rightarrow> Done None s6 | Blocked s6 \<Rightarrow> Blocked s6)
            | (True, s5) \<Rightarrow> Done (Some uid) (print (f s5) s5))) = pending_lock s4"
proof (cases "sendall c m s4")
  case (Pair ok s5)
  have "pending_lock (snd (sendall c m s4)) = pending_lock s4" by simp
  then have k: "pending_lock s5 = pending_lock s4" by (simp add: Pair)
  show ?thesis
  proof (cases ok)
    case True
    with Pair k show ?thesis by simp
  next
    case False
    have "pending_lock (state_of (disconnect_conn c s5)) = pending_lock s5"
      by (rule pl_disconnect_conn)
    with Pair False k show ?thesis
      by (cases "disconnect_conn c s5") simp_all
  qed
qed

lemma pl_resume:
  "pending_lock (state_of (handle_new_connection_resume pid c name a s)) = pending_lock s"
proof (cases "ev_set s pid \<and> \<not> pending_lock s")
  case False
  then show ?thesis by (auto simp: handle_new_connection_resume_def)
next
  case True
  then show ?thesis
    by (cases "map_of (pending (acquire_pending s)) pid")
       (simp_all add: handle_new_connection_resume_def Let_def pl_admit_tail)
qed

lemma pl_fold_print:
  "pending_lock (fold (\<lambda>(k, v). print (g k v)) xs t) = pending_lock t"
  by (induction xs arbitrary: t) (auto simp: split_def)

lemma pl_sessions:
  "pending_lock (state_of (voice_entry c uid name s)) = pending_lock s"
  "pending_lock (state_of (messaging_entry c uid name s)) = pending_lock s"
  "pending_lock (state_of (voice_chunk dec c r s)) = pending_lock s"
  "pending_lock (state_of (messaging_chunk dec c name r s)) = pending_lock s"
proof -
  show "pending_lock (state_of (voice_entry c uid name s)) = pending_lock s"
    by (simp add: voice_entry_def Let_def broadcast_message_def pl_broadcast)
  show "pending_lock (state_of (messaging_entry c uid name s)) = pending_lock s"
    using pl_broadcast [of "Utf8 (user_joined_note name uid)" "Some c" s]
    by (cases "broadcast (Utf8 (user_joined_note name uid)) (Some c) s")
       (simp_all add: messaging_entry_def broadcast_message_def)
  show "pending_lock (state_of (voice_chunk dec c r s)) = pending_lock s"
    by (cases r)
       (simp_all add: voice_chunk_def broadcast_audio_def state_of_same_case pl_broadcast)
  show "pending_lock (state_of (messaging_chunk dec c name r s)) = pending_lock s"
    by (cases r)
       (simp_all add: messaging_chunk_def Let_def broadcast_message_def state_of_same_case
          pl_broadcast)
qed

lemma pl_operator: "pending_lock (state_of (operator_command cmd s)) = pending_lock s"
proof (cases cmd)
  case CmdPending
  then show ?thesis by (simp add: operator_command_def cmd_pending_def Let_def pl_fold_print)
next
  case (CmdAccept pid)
  then show ?thesis
    by (cases "map_of (pending (acquire_pending s)) pid")
       (simp_all add: operator_command_def cmd_accept_def resolve_def Let_def)
next
  case (CmdReject pid)
  then show ?thesis
    by (cases "map_of (pending (acquire_pending s)) pid")
       (simp_all add: operator_command_def cmd_reject_def resolve_def Let_def)
next
  case CmdList
  then show ?thesis by (simp add: operator_command_def cmd_list_def Let_def pl_fold_print)
next
  case (CmdKick uid)
  show ?thesis
  proof (cases "find (\<lambda>(c, u). user_id u = uid) (clients (acquire_clients s))")
    case None
    with CmdKick show ?thesis by (simp add: operator_command_def cmd_kick_def Let_def)
  next
    case (Some p)
    obtain c u where p: "p = (c, u)" by (cases p)
    let ?m = "Utf8 ''[Server]: You were kicked by admin.''"
    have "pending_lock (state_of (disconnect_conn c (snd (sendall c ?m (acquire_clients s)))))
        = pending_lock s"
      by (simp add: pl_disconnect_conn)
    with CmdKick Some p show ?thesis
      by (cases "disconnect_conn c (snd (sendall c ?m (acquire_clients s)))")
         (simp_all add: operator_command_def cmd_kick_def Let_def)
  qed
next
  case (CmdBroadcast arg)
  then show ?thesis
    using pl_broadcast [of "Utf8 (''[Server]: '' @ arg)" None s]
    by (cases "broadcast (Utf8 (''[Server]: '' @ arg)) None s")
       (simp_all add: operator_command_def cmd_broadcast_def broadcast_message_def)
next
  case CmdStop
  then show ?thesis
    by (simp add: operator_command_def cmd_stop_def Let_def fold_close_exact)
next
  case CmdHelp
  then show ?thesis by (simp add: operator_command_def)
qed

lemma pl_step: "pending_lock (step dec act s) = pending_lock s"
  by (cases act)
     (simp_all add: step_def pl_new_connection pl_resume pl_sessions pl_disconnect_conn
        pl_operator)

lemma pending_lock_free: "\<not> pending_lock (run dec acts (initial m))"
proof -
  have "pending_lock (run dec acts s) = pending_lock s" for s
    by (induction acts arbitrary: s) (simp_all add: pl_step)
  then show ?thesis by (simp add: initial_def)
qed

text \<open>
  The example: alice, bob and carol are admitted and dave (socket 10) waits as pending
  request 4.
\<close>

definition dave_pending :: state where
  "dave_pending =
     run ascii_decode [NewConnection 10 dave (Data ''NAME:dave'')] (three_clients MESSAGING)"

lemma dave_pending_fields:
  "\<not> pending_lock dave_pending" "\<not> clients_lock dave_pending"
  "map (req_conn \<circ> snd) (pending dave_pending) = [10]"
  "map fst (clients dave_pending) = [8, 7, 9]"
  "closed dave_pending = {}" "broken dave_pending = {}"
  by (simp_all add: dave_pending_def three_clients_def run_simps prims)

text \<open>
  C2, as the code has it. With \<^verbatim>\<open>pending_lock\<close> free (as it is in every state the process
  reaches: \<open>pending_lock_free\<close>), \<^verbatim>\<open>stop\<close> clears \<^verbatim>\<open>running\<close> and, for
  every entry of \<^verbatim>\<open>pending\<close> in the order of the table, the operator thread itself sends
  \<^verbatim>\<open>REJECT\<close> on the entry's socket and then closes the socket; then it empties \<^verbatim>\<open>pending\<close>. The
  state it leaves is the one it found but for this: no event is set and no decision is
  written. All this is done before the thread asks for \<^verbatim>\<open>clients_lock\<close>. With that lock free
  it goes on: for every client in the order of the registry it sends the shutdown notice
  and then closes the socket, empties \<^verbatim>\<open>clients\<close> and closes the listening socket. With that
  lock held it waits at \<^verbatim>\<open>with clients_lock:\<close> and no client is closed.
\<close>

theorem stop_rejects_pending:
  assumes "\<not> pending_lock s"
  shows "cmd_stop s =
     (let pconns = map (req_conn \<circ> snd) (pending s);
          s2 = s\<lparr>running := False, pending := [], closed := closed s \<union> set pconns,
                 trace := trace s @ [Printed ''Stopping server...'', Acquired PendingLock]
                   @ stop_events (Utf8 ''REJECT'') pconns (closed s \<union> broken s)
                   @ [Released PendingLock]\<rparr>;
          cconns = map fst (clients s)
      in if clients_lock s then Blocked s2
         else Done () (s2\<lparr>clients := [], closed := closed s2 \<union> set cconns,
                 trace := trace s2 @ [Acquired ClientsLock]
                   @ stop_events (Utf8 ''[Server]: Server shutting down.'') cconns
                       (closed s2 \<union> broken s)
                   @ [Released ClientsLock, ListenerClosed]\<rparr>))"
proof (cases s)
  case (fields md cl nu pe np ru clk plk ev clo br tr)
  with assms have plk: "\<not> plk" by simp
  show ?thesis
    using plk
    by (simp add: fields cmd_stop_def Let_def fold_reject_exact fold_close_exact prims
        image_image Un_assoc)
qed

theorem stop_rejects_pending_witness:
  "\<not> pending_lock dave_pending
   \<and> cmd_stop dave_pending =
       Done () (dave_pending\<lparr>running := False, pending := [], clients := [],
          closed := {10, 8, 7, 9},
          trace := trace dave_pending @
            [Printed ''Stopping server...'', Acquired PendingLock,
             Sent 10 (Utf8 ''REJECT''), Closed 10, Released PendingLock,
             Acquired ClientsLock,
             Sent 8 (Utf8 ''[Server]: Server shutting down.''), Closed 8,
             Sent 7 (Utf8 ''[Server]: Server shutting down.''), Closed 7,
             Sent 9 (Utf8 ''[Server]: Server shutting down.''), Closed 9,
             Released ClientsLock, ListenerClosed]\<rparr>)"
proof -
  have a: "\<not> pending_lock dave_pending" by (simp add: dave_pending_fields)
  show ?thesis
    using a stop_rejects_pending [OF a]
    by (simp add: Let_def dave_pending_fields insert_commute)
qed

end
